theory Spec2Isabelle
  imports Main "HOL-Library.Word"
begin

unbundle bit_operations_syntax

chapter \<open>Archive password cracker: the C++ back end\<close>

text \<open>
  A shallow embedding of \<^verbatim>\<open>bloom_filter.h\<close>, \<^verbatim>\<open>bloom_filter.cpp\<close> and of the
  brute-force engine (pattern analysis, index enumeration, chunking, workers and the
  final save). Unsigned C++ integers are words of their width, so \<open>+\<close>, \<open>-\<close> and \<open>*\<close>
  wrap as in the source; \<^verbatim>\<open>int\<close> counters, which the source only ever uses far inside
  their range, are \<open>int\<close>; \<^verbatim>\<open>std::string\<close> is \<open>string\<close>; a function that reports
  failure by returning \<^verbatim>\<open>false\<close> and otherwise fills an output parameter returns an
  \<open>option\<close>.
\<close>

type_synonym uint8 = "8 word"
type_synonym uint16 = "16 word"
type_synonym uint32 = "32 word"
type_synonym uint64 = "64 word"

section \<open>The probabilistic filter\<close>

subsection \<open>Hashing\<close>

text \<open>
  \<^verbatim>\<open>fnv1a_hash(const void* key, int len)\<close>: the loop \<^verbatim>\<open>for (int i = 0; i < len; ++i)\<close>
  reads the first \<open>len\<close> bytes of \<open>key\<close> (none when \<open>len \<le> 0\<close>).
\<close>

fun fnv1a_loop :: "uint64 \<Rightarrow> uint8 list \<Rightarrow> uint64" where
  "fnv1a_loop hash [] = hash"
| "fnv1a_loop hash (p # ps) = fnv1a_loop ((hash XOR ucast p) * 0x100000001b3) ps"

definition fnv1a_hash :: "uint8 list \<Rightarrow> int \<Rightarrow> uint64" where
  "fnv1a_hash key len = fnv1a_loop 0xcbf29ce484222325 (take (nat len) key)"

text \<open>
  The bytes of an object in memory, least significant byte first (the little-endian
  layout of the persistence format), and the value such bytes denote.
\<close>

definition le_bytes :: "nat \<Rightarrow> 'a::len word \<Rightarrow> uint8 list" where
  "le_bytes n w = map (\<lambda>i. ucast (drop_bit (8 * i) w)) [0..<n]"

fun from_le :: "uint8 list \<Rightarrow> 'a::len word" where
  "from_le [] = 0"
| "from_le (b # bs) = ucast b OR push_bit 8 (from_le bs)"

definition string_bytes :: "string \<Rightarrow> uint8 list" where
  "string_bytes s = map of_char s"

text \<open>\<^verbatim>\<open>item.length()\<close> passed for the \<^verbatim>\<open>int len\<close> parameter: the low 32 bits, signed.\<close>

definition size_to_int :: "nat \<Rightarrow> int" where
  "size_to_int n = sint (word_of_nat n :: uint32)"

subsection \<open>The filter object\<close>

text \<open>
  \<open>m_fp_rate\<close> is a \<^verbatim>\<open>double\<close> that the class only stores and copies to and from
  the file: it is kept as its eight bytes.
\<close>

record BloomFilter =
  m_num_bits :: uint64
  m_num_hashes :: uint32
  m_estimated_items :: uint64
  m_fp_rate :: uint64
  m_bits :: "bool list"

definition isValid :: "BloomFilter \<Rightarrow> bool" where
  "isValid f = (m_bits f \<noteq> [] \<and> m_num_hashes f > 0)"

text \<open>The default constructor, used before deserialization.\<close>

definition BloomFilter_default :: BloomFilter where
  "BloomFilter_default =
     \<lparr>m_num_bits = 0, m_num_hashes = 0, m_estimated_items = 0, m_fp_rate = 0, m_bits = []\<rparr>"

text \<open>
  The class keeps \<open>m_bits.size() == m_num_bits\<close> in every state that reports valid:
  the constructor and \<open>deserialize\<close> resize the vector to \<open>m_num_bits\<close>, and nothing
  else changes either. Under it every index computed by \<open>generate_hashes\<close> is in range.
\<close>

definition size_invariant :: "BloomFilter \<Rightarrow> bool" where
  "size_invariant f = (length (m_bits f) = unat (m_num_bits f))"

definition h1_of :: "string \<Rightarrow> uint64" where
  "h1_of item = fnv1a_hash (string_bytes item) (size_to_int (length item))"

definition h2_of :: "string \<Rightarrow> uint64" where
  "h2_of item = fnv1a_hash (le_bytes 8 (h1_of item)) 8"

text \<open>
  \<^verbatim>\<open>hashes[i] = (h1 + i * h2) % m_num_bits\<close> for the 32-bit counter \<open>i\<close> below
  \<open>m_num_hashes\<close>; the product and the sum are taken in 64 bits.
\<close>

definition generate_hashes :: "BloomFilter \<Rightarrow> string \<Rightarrow> uint64 list" where
  "generate_hashes f item =
     map (\<lambda>i. (h1_of item + word_of_nat i * h2_of item) mod m_num_bits f)
       [0..<unat (m_num_hashes f)]"

text \<open>
  \<^verbatim>\<open>m_bits[hash_index]\<close> is unchecked in the source: an index outside the vector, like
  \<^verbatim>\<open>% m_num_bits\<close> with \<open>m_num_bits = 0\<close>, is undefined behaviour there. In the model a
  list update outside the list changes nothing and a read outside it is unspecified;
  the properties below are stated for states that satisfy \<open>isValid\<close> and
  \<open>size_invariant\<close>, where neither occurs.
\<close>

fun insert_loop :: "bool list \<Rightarrow> uint64 list \<Rightarrow> bool list" where
  "insert_loop bits [] = bits"
| "insert_loop bits (hash_index # hashes) = insert_loop (bits[unat hash_index := True]) hashes"

definition insert_bf :: "BloomFilter \<Rightarrow> string \<Rightarrow> BloomFilter" where
  "insert_bf f item =
     (if \<not> isValid f then f
      else f\<lparr>m_bits := insert_loop (m_bits f) (generate_hashes f item)\<rparr>)"

fun contains_loop :: "bool list \<Rightarrow> uint64 list \<Rightarrow> bool" where
  "contains_loop bits [] = True"
| "contains_loop bits (hash_index # hashes) =
     (if \<not> bits ! unat hash_index then False else contains_loop bits hashes)"

definition contains :: "BloomFilter \<Rightarrow> string \<Rightarrow> bool" where
  "contains f item =
     (if \<not> isValid f then False else contains_loop (m_bits f) (generate_hashes f item))"

text \<open>The smallest filter the constructor builds (its fallback for invalid parameters).\<close>

definition minimal_filter :: BloomFilter where
  "minimal_filter =
     \<lparr>m_num_bits = 8, m_num_hashes = 1, m_estimated_items = 0, m_fp_rate = 0,
      m_bits = replicate 8 False\<rparr>"

subsection \<open>Construction\<close>

text \<open>
  \<^verbatim>\<open>BloomFilter(estimated_items, false_positive_rate)\<close>. The floating-point steps are
  inputs of the model: \<open>fp_out_of_range\<close> is the test
  \<^verbatim>\<open>false_positive_rate <= 0.0 || false_positive_rate >= 1.0\<close>, \<open>m_ceil\<close> is
  \<^verbatim>\<open>static_cast<uint64_t>(std::ceil(m_exact))\<close> and \<open>k_ceil\<close> is
  \<^verbatim>\<open>static_cast<uint32_t>(std::ceil(k_exact))\<close>. \<open>alloc n\<close> tells whether
  \<^verbatim>\<open>m_bits.resize(n)\<close> succeeds; when it throws, the constructor rethrows and no
  object exists (\<open>None\<close>).
\<close>

definition BloomFilter_ctor ::
  "(nat \<Rightarrow> bool) \<Rightarrow> bool \<Rightarrow> uint64 \<Rightarrow> uint32 \<Rightarrow> uint64 \<Rightarrow> uint64 \<Rightarrow> BloomFilter option" where
  "BloomFilter_ctor alloc fp_out_of_range m_ceil k_ceil estimated_items false_positive_rate =
     (if estimated_items = 0 \<or> fp_out_of_range then
        Some \<lparr>m_num_bits = 8, m_num_hashes = 1, m_estimated_items = estimated_items,
              m_fp_rate = false_positive_rate, m_bits = replicate 8 False\<rparr>
      else
        let num_bits = (if m_ceil < 8 then 8 else m_ceil);
            num_hashes0 = (if k_ceil < 1 then 1 else k_ceil);
            num_hashes = (if num_hashes0 > 20 then 20 else num_hashes0)
        in if alloc (unat num_bits) then
             Some \<lparr>m_num_bits = num_bits, m_num_hashes = num_hashes,
                   m_estimated_items = estimated_items, m_fp_rate = false_positive_rate,
                   m_bits = replicate (unat num_bits) False\<rparr>
           else None)"

subsection \<open>Persistence\<close>

definition BLOOM_FILTER_MAGIC :: uint32 where
  "BLOOM_FILTER_MAGIC = 0xBF10F17E"

definition BLOOM_FILTER_VERSION :: uint16 where
  "BLOOM_FILTER_VERSION = 1"

text \<open>
  The packing loop of \<open>serialize\<close>: \<^verbatim>\<open>packed_bits[i / 8] |= (1 << (i % 8))\<close> for every
  set bit \<open>i\<close>, on a buffer of \<^verbatim>\<open>(m_num_bits + 7) / 8\<close> zero bytes (a 64-bit sum).
\<close>

definition pack_step :: "bool list \<Rightarrow> nat \<Rightarrow> uint8 list \<Rightarrow> uint8 list" where
  "pack_step bits i packed_bits =
     (if bits ! i
      then packed_bits[i div 8 := (packed_bits ! (i div 8)) OR push_bit (i mod 8) 1]
      else packed_bits)"

definition pack_bits :: "uint64 \<Rightarrow> bool list \<Rightarrow> uint8 list" where
  "pack_bits num_bits bits =
     fold (pack_step bits) [0..<unat num_bits] (replicate (unat ((num_bits + 7) div 8)) 0)"

text \<open>
  \<open>serialize\<close> returns its boolean and the bytes the file holds afterwards (\<open>None\<close> when
  the file is not touched). \<open>can_open\<close> tells whether the output stream opens; a stream
  that opened takes every write.
\<close>

definition serialize :: "bool \<Rightarrow> BloomFilter \<Rightarrow> bool \<times> uint8 list option" where
  "serialize can_open f =
     (if \<not> isValid f then (False, None)
      else if \<not> can_open then (False, None)
      else (True, Some (le_bytes 4 BLOOM_FILTER_MAGIC @ le_bytes 2 BLOOM_FILTER_VERSION
                        @ le_bytes 8 (m_num_bits f) @ le_bytes 4 (m_num_hashes f)
                        @ le_bytes 8 (m_estimated_items f) @ le_bytes 8 (m_fp_rate f)
                        @ pack_bits (m_num_bits f) (m_bits f))))"

text \<open>
  An input stream: the bytes not yet read and the fail bit. \<^verbatim>\<open>ifs.read(dst, n)\<close> on a
  failed stream leaves \<open>dst\<close> alone; with fewer than \<open>n\<close> bytes left it stores what
  there is over the front of \<open>dst\<close> and sets the fail bit.
\<close>

record ifstream =
  unread :: "uint8 list"
  failbit :: bool

definition ifs_read :: "nat \<Rightarrow> uint8 list \<Rightarrow> ifstream \<Rightarrow> uint8 list \<times> ifstream" where
  "ifs_read n dst ifs =
     (if failbit ifs then (dst, ifs)
      else if n \<le> length (unread ifs)
        then (take n (unread ifs), ifs\<lparr>unread := drop n (unread ifs)\<rparr>)
      else (unread ifs @ drop (length (unread ifs)) dst, ifs\<lparr>unread := [], failbit := True\<rparr>))"

definition unpack_bits :: "uint64 \<Rightarrow> uint8 list \<Rightarrow> bool list" where
  "unpack_bits num_bits packed_bits =
     map (\<lambda>i. (drop_bit (i mod 8) (packed_bits ! (i div 8)) AND 1) \<noteq> 0) [0..<unat num_bits]"

definition invalidate :: "BloomFilter \<Rightarrow> BloomFilter" where
  "invalidate f = f\<lparr>m_num_bits := 0, m_num_hashes := 0\<rparr>"

text \<open>
  \<open>deserialize\<close> on a file (\<open>None\<close>: it cannot be opened), into the filter \<open>f\<close>. It
  returns its boolean and the filter state afterwards. \<open>alloc n\<close> tells whether
  \<^verbatim>\<open>m_bits.resize(n)\<close> succeeds; the exception it throws otherwise is caught. The
  byte buffer \<^verbatim>\<open>packed_bits(num_bytes)\<close> is allocated outside that \<^verbatim>\<open>try\<close> block and is
  taken to succeed. A read that falls short sets the fail bit, leaves the bytes it
  got in the destination, and turns every later read into a no-op.
\<close>

definition deserialize ::
  "(nat \<Rightarrow> bool) \<Rightarrow> uint8 list option \<Rightarrow> BloomFilter \<Rightarrow> bool \<times> BloomFilter" where
  "deserialize alloc file f =
     (case file of
        None \<Rightarrow> (False, f)
      | Some bytes \<Rightarrow>
          let ifs0 = \<lparr>unread = bytes, failbit = False\<rparr>;
              (magic_b, ifs1) = ifs_read 4 (le_bytes 4 (0 :: uint32)) ifs0;
              magic = (from_le magic_b :: uint32)
          in if failbit ifs1 \<or> magic \<noteq> BLOOM_FILTER_MAGIC then (False, f)
          else
          let (version_b, ifs2) = ifs_read 2 (le_bytes 2 (0 :: uint16)) ifs1;
              version = (from_le version_b :: uint16)
          in if failbit ifs2 \<or> version \<noteq> BLOOM_FILTER_VERSION then (False, f)
          else
          let (num_bits_b, ifs3) = ifs_read 8 (le_bytes 8 (m_num_bits f)) ifs2;
              (num_hashes_b, ifs4) = ifs_read 4 (le_bytes 4 (m_num_hashes f)) ifs3;
              (items_b, ifs5) = ifs_read 8 (le_bytes 8 (m_estimated_items f)) ifs4;
              (fp_rate_b, ifs6) = ifs_read 8 (le_bytes 8 (m_fp_rate f)) ifs5;
              f1 = f\<lparr>m_num_bits := from_le num_bits_b, m_num_hashes := from_le num_hashes_b,
                     m_estimated_items := from_le items_b, m_fp_rate := from_le fp_rate_b\<rparr>
          in if failbit ifs6 \<or> m_num_bits f1 = 0 \<or> m_num_hashes f1 = 0
             then (False, invalidate f1)
          else
          let num_bytes = unat ((m_num_bits f1 + 7) div 8);
              (packed_bits, ifs7) = ifs_read num_bytes (replicate num_bytes 0) ifs6
          in if failbit ifs7 \<or> unread ifs7 \<noteq> [] then (False, invalidate f1)
          else if \<not> alloc (unat (m_num_bits f1))
             then (False, (invalidate f1)\<lparr>m_bits := []\<rparr>)
          else (True, f1\<lparr>m_bits := unpack_bits (m_num_bits f1) packed_bits\<rparr>))"

text \<open>
  A file that \<open>deserialize\<close> accepts although its parameters lie outside the range the
  constructor clamps into: one bit, twenty-one hashes.
\<close>

definition tiny_filter_file :: "uint8 list" where
  "tiny_filter_file =
     [0x7E, 0xF1, 0x10, 0xBF,  1, 0,  1, 0, 0, 0, 0, 0, 0, 0,  21, 0, 0, 0,
      0, 0, 0, 0, 0, 0, 0, 0,  0, 0, 0, 0, 0, 0, 0, 0,  1]"

text \<open>An allocator that never fails.\<close>

definition always_alloc :: "nat \<Rightarrow> bool" where
  "always_alloc n = True"

section \<open>Patterns\<close>

text \<open>
  \<open>parse_pattern\<close> turns a pattern into segments, each a \<^verbatim>\<open>std::string\<close>. An unescaped
  \<^verbatim>\<open>*\<close> or \<^verbatim>\<open>?\<close> closes the segment being collected and becomes a segment of its own;
  a backslash makes the next character part of the segment being collected, and a
  backslash that ends the pattern is dropped. Every later function tells the kind of a
  segment by comparing the string with \<^verbatim>\<open>"*"\<close> and \<^verbatim>\<open>"?"\<close>.
\<close>

record PatternInfo =
  fixed_length :: int
  num_stars :: int

fun parse_pattern_loop :: "string \<Rightarrow> string list \<Rightarrow> string \<Rightarrow> bool \<Rightarrow> string list" where
  "parse_pattern_loop [] segments current_segment escape =
     (if current_segment \<noteq> [] then segments @ [current_segment] else segments)"
| "parse_pattern_loop (c # cs) segments current_segment escape =
     (if escape then parse_pattern_loop cs segments (current_segment @ [c]) False
      else if c = CHR 0x5C then parse_pattern_loop cs segments current_segment True
      else if c = CHR ''*'' \<or> c = CHR ''?'' then
        parse_pattern_loop cs
          ((if current_segment \<noteq> [] then segments @ [current_segment] else segments) @ [[c]])
          [] False
      else parse_pattern_loop cs segments (current_segment @ [c]) False)"

definition parse_pattern :: "string \<Rightarrow> string list" where
  "parse_pattern pattern = parse_pattern_loop pattern [] [] False"

fun calculate_pattern_info_loop :: "string list \<Rightarrow> int \<Rightarrow> int \<Rightarrow> PatternInfo" where
  "calculate_pattern_info_loop [] fixed_len stars = \<lparr>fixed_length = fixed_len, num_stars = stars\<rparr>"
| "calculate_pattern_info_loop (segment # segments) fixed_len stars =
     (if segment = ''*'' then calculate_pattern_info_loop segments fixed_len (stars + 1)
      else if segment = ''?'' then calculate_pattern_info_loop segments (fixed_len + 1) stars
      else calculate_pattern_info_loop segments (fixed_len + int (length segment)) stars)"

definition calculate_pattern_info :: "string list \<Rightarrow> PatternInfo" where
  "calculate_pattern_info segments = calculate_pattern_info_loop segments 0 0"

text \<open>The loop \<^verbatim>\<open>if (seg == "?") num_qmarks++\<close>.\<close>

fun count_qmarks :: "string list \<Rightarrow> int \<Rightarrow> int" where
  "count_qmarks [] num_qmarks = num_qmarks"
| "count_qmarks (seg # segments) num_qmarks =
     count_qmarks segments (if seg = ''?'' then num_qmarks + 1 else num_qmarks)"

definition UINT64_MAX :: uint64 where
  "UINT64_MAX = 0xFFFFFFFFFFFFFFFF"

text \<open>
  The multiplication loop, with \<open>n\<close> iterations left:
  \<^verbatim>\<open>if (combinations > max / charset_size) return std::nullopt; combinations *= charset_size;\<close>
\<close>

fun combinations_loop :: "nat \<Rightarrow> uint64 \<Rightarrow> uint64 \<Rightarrow> uint64 option" where
  "combinations_loop 0 charset_size combinations = Some combinations"
| "combinations_loop (Suc n) charset_size combinations =
     (if combinations > UINT64_MAX div charset_size then None
      else combinations_loop n charset_size (combinations * charset_size))"

definition calculate_pattern_combinations :: "string list \<Rightarrow> uint64 \<Rightarrow> int \<Rightarrow> uint64 option" where
  "calculate_pattern_combinations segments charset_size total_length =
     (if charset_size = 0 then Some 0
      else
        let info = calculate_pattern_info segments;
            fixed_part_len_total = fixed_length info;
            stars = num_stars info;
            num_qmarks = count_qmarks segments 0
        in if total_length < fixed_part_len_total then Some 0
           else if stars = 0 then
             (if total_length \<noteq> fixed_part_len_total then Some 0
              else if num_qmarks = 0 then Some 1
              else combinations_loop (nat num_qmarks) charset_size 1)
           else if stars = 1 then
             (let star_chars = total_length - fixed_part_len_total
              in if star_chars < 0 then Some 0
                 else let total_wildcard_chars = num_qmarks + star_chars
                      in if total_wildcard_chars = 0 then Some 1
                         else combinations_loop (nat total_wildcard_chars) charset_size 1)
           else None)"

text \<open>
  The quantities of the specification: the number of any-many and of any-one segments,
  the fixed length (literal characters plus any-one segments), and a power that is
  undefined when it does not fit in 64 bits.
\<close>

definition star_count :: "string list \<Rightarrow> nat" where
  "star_count segments = length (filter (\<lambda>s. s = ''*'') segments)"

definition any_one_count :: "string list \<Rightarrow> nat" where
  "any_one_count segments = length (filter (\<lambda>s. s = ''?'') segments)"

definition fixed_len :: "string list \<Rightarrow> nat" where
  "fixed_len segments =
     sum_list (map length (filter (\<lambda>s. s \<noteq> ''*'' \<and> s \<noteq> ''?'') segments))
       + any_one_count segments"

definition power64 :: "nat \<Rightarrow> nat \<Rightarrow> uint64 option" where
  "power64 c n = (if c ^ n < 2 ^ 64 then Some (word_of_nat (c ^ n)) else None)"

section \<open>Index enumeration\<close>

text \<open>
  The digit loop of \<open>getPasswordByIndex\<close> (and of the sequential worker): position
  \<open>len - 1 - i\<close> takes the character of the \<open>i\<close>-th base-\<open>charsetSize\<close> digit; the loop
  stops early once the quotient is zero, leaving the fill character \<open>charset[0]\<close>.
\<close>

function fill_loop :: "int \<Rightarrow> int \<Rightarrow> uint64 \<Rightarrow> string \<Rightarrow> uint64 \<Rightarrow> string \<Rightarrow> string" where
  "fill_loop i len index_within_length charset charsetSize out_password =
     (if i < len then
        let char_idx = index_within_length mod charsetSize;
            out' = out_password[nat (len - 1 - i) := charset ! unat char_idx];
            index' = index_within_length div charsetSize
        in if index' = 0 \<and> i < len - 1 then out'
           else fill_loop (i + 1) len index' charset charsetSize out'
      else out_password)"
  by pat_completeness auto
termination
  by (relation "measure (\<lambda>(i, len, _). nat (len - i))") auto

declare fill_loop.simps [simp del]

function getPasswordByIndex_loop ::
  "int \<Rightarrow> int \<Rightarrow> uint64 \<Rightarrow> uint64 \<Rightarrow> string \<Rightarrow> uint64 \<Rightarrow> string option" where
  "getPasswordByIndex_loop len max_possible_length current_index combinations_power charset charsetSize =
     (if len \<le> max_possible_length then
        if len \<noteq> 1 \<and> combinations_power > UINT64_MAX div charsetSize then None
        else
          let combinations_power' =
                (if len = 1 then charsetSize else combinations_power * charsetSize);
              combinations_this_len = combinations_power'
          in if current_index < combinations_this_len then
               Some (fill_loop 0 len current_index charset charsetSize
                       (replicate (nat len) (charset ! 0)))
             else if current_index < combinations_this_len then None
             else getPasswordByIndex_loop (len + 1) max_possible_length
                    (current_index - combinations_this_len) combinations_power' charset charsetSize
      else None)"
  by pat_completeness auto
termination
  by (relation "measure (\<lambda>(len, max_possible_length, _). nat (max_possible_length + 1 - len))") auto

declare getPasswordByIndex_loop.simps [simp del]

definition getPasswordByIndex :: "uint64 \<Rightarrow> string \<Rightarrow> int \<Rightarrow> string option" where
  "getPasswordByIndex index charset max_possible_length =
     (let charsetSize = (word_of_nat (length charset) :: uint64)
      in if charsetSize = 0 then None
         else getPasswordByIndex_loop 1 max_possible_length index 1 charset charsetSize)"

text \<open>
  The enumeration of the specification: \<open>block_offset c L\<close> candidates are shorter than
  \<open>L\<close>, and the candidate of length \<open>L\<close> with local index \<open>x\<close> has at position
  \<open>L - 1 - j\<close> the character \<open>charset[(x / c^j) mod c]\<close>.
\<close>

definition block_offset :: "nat \<Rightarrow> nat \<Rightarrow> nat" where
  "block_offset c L = (\<Sum>l = 1..<L. c ^ l)"

definition candidate :: "string \<Rightarrow> nat \<Rightarrow> nat \<Rightarrow> string" where
  "candidate charset L x =
     map (\<lambda>p. charset ! ((x div length charset ^ (L - 1 - p)) mod length charset)) [0..<L]"

subsection \<open>Pattern candidates at a fixed length\<close>

text \<open>The counting loop at the head of \<open>getPatternPasswordByIndex\<close>.\<close>

fun pattern_counts :: "string list \<Rightarrow> int \<Rightarrow> int \<Rightarrow> int \<Rightarrow> int \<times> int \<times> int" where
  "pattern_counts [] fixed_part_len_literals num_qmarks stars =
     (fixed_part_len_literals, num_qmarks, stars)"
| "pattern_counts (seg # segments) fixed_part_len_literals num_qmarks stars =
     (if seg = ''?'' then pattern_counts segments fixed_part_len_literals (num_qmarks + 1) stars
      else if seg = ''*'' then pattern_counts segments fixed_part_len_literals num_qmarks (stars + 1)
      else pattern_counts segments (fixed_part_len_literals + int (length seg)) num_qmarks stars)"

text \<open>
  The loop that adds up the number of candidates shorter than \<open>total_wildcard_chars\<close>,
  with both overflow checks.
\<close>

function pattern_offset_loop :: "int \<Rightarrow> int \<Rightarrow> uint64 \<Rightarrow> uint64 \<Rightarrow> uint64 \<Rightarrow> uint64 option" where
  "pattern_offset_loop len total_wildcard_chars combinations_power offset charset_size =
     (if len < total_wildcard_chars then
        if len \<noteq> 1 \<and> combinations_power > UINT64_MAX div charset_size then None
        else
          let combinations_power' =
                (if len = 1 then charset_size else combinations_power * charset_size);
              combinations_this_len_offset = combinations_power'
          in if offset > UINT64_MAX - combinations_this_len_offset then None
             else pattern_offset_loop (len + 1) total_wildcard_chars combinations_power'
                    (offset + combinations_this_len_offset) charset_size
      else Some offset)"
  by pat_completeness auto
termination
  by (relation "measure (\<lambda>(len, total_wildcard_chars, _). nat (total_wildcard_chars - len))") auto

declare pattern_offset_loop.simps [simp del]

text \<open>
  The assembly loop: an any-one takes the next wildcard character, the any-many takes
  the next \<open>star_len\<close> of them (\<^verbatim>\<open>substr(wildcard_idx, current_star_len)\<close>), a literal is
  appended as it is. \<open>wildcard_idx\<close> never goes negative, so its conversion to
  \<^verbatim>\<open>size_t\<close> is \<open>nat\<close>.
\<close>

fun assemble :: "string list \<Rightarrow> string \<Rightarrow> int \<Rightarrow> int \<Rightarrow> string \<Rightarrow> string option" where
  "assemble [] wildcard_values star_len wildcard_idx out_password = Some out_password"
| "assemble (segment # segments) wildcard_values star_len wildcard_idx out_password =
     (if segment = ''?'' then
        (if nat wildcard_idx < length wildcard_values
         then assemble segments wildcard_values star_len (wildcard_idx + 1)
                (out_password @ [wildcard_values ! nat wildcard_idx])
         else None)
      else if segment = ''*'' then
        (if nat (wildcard_idx + star_len) \<le> length wildcard_values
         then assemble segments wildcard_values star_len (wildcard_idx + star_len)
                (out_password @ take (nat star_len) (drop (nat wildcard_idx) wildcard_values))
         else None)
      else assemble segments wildcard_values star_len wildcard_idx (out_password @ segment))"

text \<open>\<^verbatim>\<open>static_cast<size_t>\<close> of an \<^verbatim>\<open>int\<close>: a negative value wraps around.\<close>

definition to_size_t :: "int \<Rightarrow> uint64" where
  "to_size_t v = word_of_int v"

text \<open>
  \<open>getPatternPasswordByIndex\<close>, with \<open>None\<close> for \<^verbatim>\<open>false\<close>. The status lines it prints
  on its failure paths are left out.
\<close>

definition getPatternPasswordByIndex ::
  "uint64 \<Rightarrow> string list \<Rightarrow> string \<Rightarrow> int \<Rightarrow> string option" where
  "getPatternPasswordByIndex index segments charset total_length =
     (let charset_size = (word_of_nat (length charset) :: uint64)
      in if charset_size = 0 then None
      else
      let (fixed_part_len_literals, num_qmarks, stars) = pattern_counts segments 0 0 0;
          fixed_part_len_total = fixed_part_len_literals + num_qmarks
      in if to_size_t total_length < to_size_t fixed_part_len_total then None
      else if stars > 0 \<and> total_length - fixed_part_len_total < 0 then None
      else if \<not> stars > 0 \<and> to_size_t total_length \<noteq> to_size_t fixed_part_len_total then None
      else
      let star_len = (if stars > 0 then total_length - fixed_part_len_total else 0);
          total_wildcard_chars = num_qmarks + star_len
      in if total_wildcard_chars < 0 then None
      else
      case (if total_wildcard_chars > 0 then
              (case pattern_offset_loop 1 total_wildcard_chars 1 0 charset_size of
                 None \<Rightarrow> None
               | Some offset \<Rightarrow>
                   if offset > UINT64_MAX - index then None
                   else
                     (case getPasswordByIndex (offset + index) charset total_wildcard_chars of
                        None \<Rightarrow> None
                      | Some wildcard_values \<Rightarrow>
                          if word_of_nat (length wildcard_values) \<noteq> to_size_t total_wildcard_chars
                          then None else Some wildcard_values))
            else Some [])
      of None \<Rightarrow> None
       | Some wildcard_values \<Rightarrow>
           (case assemble segments wildcard_values star_len 0 [] of
              None \<Rightarrow> None
            | Some out_password \<Rightarrow>
                if word_of_nat (length out_password) \<noteq> to_size_t total_length then None
                else Some out_password))"

subsection \<open>Tokens of a pattern\<close>

text \<open>
  The three kinds of pattern segment of the specification: a literal with its text, an
  any-one, an any-many.
\<close>

datatype token = literal string | any_one | any_many

text \<open>
  The kind the code gives a segment: the tests \<^verbatim>\<open>seg == "?"\<close> and \<^verbatim>\<open>seg == "*"\<close> of
  \<open>calculate_pattern_info\<close>, \<open>calculate_pattern_combinations\<close> and
  \<open>getPatternPasswordByIndex\<close>, everything else being a literal.
\<close>

definition segment_token :: "string \<Rightarrow> token" where
  "segment_token seg =
     (if seg = ''?'' then any_one else if seg = ''*'' then any_many else literal seg)"

text \<open>
  What a piece of the candidate must be for a token: the text itself for a literal, one
  charset character for an any-one, \<open>star_len\<close> charset characters for the any-many.
\<close>

fun token_piece :: "string \<Rightarrow> nat \<Rightarrow> token \<Rightarrow> string \<Rightarrow> bool" where
  "token_piece charset star_len (literal s) piece = (piece = s)"
| "token_piece charset star_len any_one piece = (length piece = 1 \<and> set piece \<subseteq> set charset)"
| "token_piece charset star_len any_many piece =
     (length piece = star_len \<and> set piece \<subseteq> set charset)"

text \<open>
  The pattern language as the specification and the README word it, independently of
  \<open>parse_pattern\<close>: \<^verbatim>\<open>?\<close> is an any-one and \<^verbatim>\<open>*\<close> an any-many, a backslash followed by
  a character \<open>c\<close> is the literal \<open>c\<close> (also for \<^verbatim>\<open>\?\<close>, \<^verbatim>\<open>\*\<close> and \<^verbatim>\<open>\\\<close>), every other
  character is a literal, and consecutive literal characters collapse into one literal
  token. The specification does not say what a backslash at the very end means; it is
  dropped here, as the parser does.
\<close>

definition char_token :: "char \<Rightarrow> token" where
  "char_token c =
     (if c = CHR ''?'' then any_one else if c = CHR ''*'' then any_many else literal [c])"

fun pattern_lex :: "string \<Rightarrow> token list" where
  "pattern_lex [] = []"
| "pattern_lex [c] = (if c = CHR 0x5C then [] else [char_token c])"
| "pattern_lex (c # d # cs) =
     (if c = CHR 0x5C then literal [d] # pattern_lex cs else char_token c # pattern_lex (d # cs))"

fun collapse_literals :: "token list \<Rightarrow> token list" where
  "collapse_literals (literal s # literal t # ts) = collapse_literals (literal (s @ t) # ts)"
| "collapse_literals (t # ts) = t # collapse_literals ts"
| "collapse_literals [] = []"

definition pattern_tokens :: "string \<Rightarrow> token list" where
  "pattern_tokens pattern = collapse_literals (pattern_lex pattern)"

text \<open>The string that stands for a token in a segment list.\<close>

fun token_segment :: "token \<Rightarrow> string" where
  "token_segment (literal s) = s"
| "token_segment any_one = ''?''"
| "token_segment any_many = ''*''"

text \<open>The pattern \<^verbatim>\<open>\?\<close>: an escaped question mark and nothing else.\<close>

definition escaped_qmark :: string where
  "escaped_qmark = [CHR 0x5C, CHR ''?'']"

subsection \<open>Integer roots of \<open>2^64\<close>\<close>

text \<open>
  For each exponent \<open>W\<close> from 2 to 63, the largest base whose \<open>W\<close>-th power is below
  \<open>2^64\<close> (the entry at position \<open>W - 2\<close>).
\<close>

definition root_table :: "nat list" where
  "root_table = [4294967295, 2642245, 65535, 7131, 1625, 565, 255, 138, 84, 56,
     40, 30, 23, 19, 15, 13, 11, 10, 9, 8,
     7, 6, 6, 5, 5, 5, 4, 4, 4, 4,
     3, 3, 3, 3, 3, 3, 3, 3, 3, 2,
     2, 2, 2, 2, 2, 2, 2, 2, 2, 2,
     2, 2, 2, 2, 2, 2, 2, 2, 2, 2,
     2, 2]"

text \<open>
  What makes an entry of the table right: the next base overshoots, the sum
  \<open>c + c^2 + \<dots> + c^W\<close> is still below \<open>2^64\<close> (through the closed form of the sum),
  and \<open>c^W\<close> leaves room for adding a 32-bit number.
\<close>

definition row_ok :: "nat \<Rightarrow> bool" where
  "row_ok W = (let c = root_table ! (W - 2)
               in 2 \<le> c \<and> 2 ^ 64 \<le> (c + 1) ^ W \<and> c ^ Suc W < (c - 1) * 2 ^ 64 + c
                  \<and> c ^ W + 2 ^ 32 \<le> 2 ^ 64)"

section \<open>The dispatcher\<close>

subsection \<open>Index counts\<close>

text \<open>
  The lambda \<open>calculate_combinations\<close> of \<open>brute_force_worker_combined\<close>, with \<open>None\<close>
  for the \<^verbatim>\<open>std::overflow_error\<close> it throws; its loop is the multiplication loop above.
  The function has returned before the lambda is built when \<open>charsetSize\<close> is 0.
\<close>

definition calculate_combinations :: "uint64 \<Rightarrow> int \<Rightarrow> uint64 option" where
  "calculate_combinations charsetSize len =
     (if len \<le> 0 then Some 0 else combinations_loop (nat len) charsetSize 1)"

text \<open>
  The bound on the number of indices in the two random modes:
  \<^verbatim>\<open>(4ULL * 1024 * 1024 * 1024) / sizeof(uint64)\<close>.
\<close>

definition MAX_REASONABLE_INDICES_RAM :: uint64 where
  "MAX_REASONABLE_INDICES_RAM = (4 * 1024 * 1024 * 1024) div 8"

subsection \<open>Chunking\<close>

text \<open>
  \<^verbatim>\<open>uint64 itemsPerThread = (total + numThreads - 1) / numThreads;\<close>
  \<^verbatim>\<open>if (itemsPerThread == 0) itemsPerThread = 1;\<close> with the 32-bit \<open>numThreads\<close>
  converted to 64 bits; the sum wraps.
\<close>

definition itemsPerThread_of :: "uint64 \<Rightarrow> uint32 \<Rightarrow> uint64" where
  "itemsPerThread_of totalCombinations numThreads =
     (let itemsPerThread = (totalCombinations + ucast numThreads - 1) div ucast numThreads
      in if itemsPerThread = 0 then 1 else itemsPerThread)"

text \<open>
  The spawn loop: the list of the \<open>(startIdx, endIdx)\<close> pairs handed to worker threads.
  \<open>check_stop_flag t\<close> is the outcome of the stop check made before thread \<open>t\<close> is
  spawned.
\<close>

function spawn_loop ::
  "(uint32 \<Rightarrow> bool) \<Rightarrow> uint32 \<Rightarrow> uint32 \<Rightarrow> uint64 \<Rightarrow> uint64 \<Rightarrow> (uint64 \<times> uint64) list" where
  "spawn_loop check_stop_flag t numThreads itemsPerThread totalCombinations =
     (if t < numThreads then
        if check_stop_flag t then []
        else
          let startIdx = ucast t * itemsPerThread;
              endIdx = min (startIdx + itemsPerThread) totalCombinations
          in if startIdx \<ge> endIdx then []
             else (startIdx, endIdx)
                    # spawn_loop check_stop_flag (t + 1) numThreads itemsPerThread totalCombinations
      else [])"
  by pat_completeness auto
termination
proof (relation "measure (\<lambda>(check_stop_flag, t, numThreads, _). unat numThreads - unat t)")
  show "wf (measure (\<lambda>(check_stop_flag, t, numThreads, _). unat numThreads - unat t))"
    by simp
next
  fix check_stop_flag :: "uint32 \<Rightarrow> bool" and t numThreads :: uint32
    and itemsPerThread totalCombinations x xa :: uint64
  assume "t < numThreads"
  then have "unat t < unat numThreads" by (simp add: word_less_nat_alt)
  moreover have "unat numThreads < 2 ^ 32"
    using unsigned_less [of numThreads, where 'a = nat] by simp
  ultimately have "unat t + unat (1 :: uint32) < 2 ^ LENGTH(32)" by simp
  then have "unat (t + 1) = unat t + unat (1 :: uint32)"
    by (simp only: unat_add_lem [THEN iffD1])
  with \<open>unat t < unat numThreads\<close>
  show "((check_stop_flag, t + 1, numThreads, itemsPerThread, totalCombinations),
           (check_stop_flag, t, numThreads, itemsPerThread, totalCombinations))
          \<in> measure (\<lambda>(check_stop_flag, t, numThreads, _). unat numThreads - unat t)"
    by simp
qed

declare spawn_loop.simps [simp del]

definition dispatch_chunks :: "(uint32 \<Rightarrow> bool) \<Rightarrow> uint64 \<Rightarrow> uint32 \<Rightarrow> (uint64 \<times> uint64) list" where
  "dispatch_chunks check_stop_flag totalCombinations numThreads =
     spawn_loop check_stop_flag 0 numThreads (itemsPerThread_of totalCombinations numThreads) totalCombinations"

text \<open>No stop flag is seen.\<close>

definition never_stop :: "uint32 \<Rightarrow> bool" where
  "never_stop t = False"

text \<open>The indices a list of chunks covers.\<close>

definition chunk_indices :: "(uint64 \<times> uint64) list \<Rightarrow> nat set" where
  "chunk_indices chunks = (\<Union>(a, b) \<in> set chunks. {unat a..<unat b})"

subsection \<open>Length-unioned pattern enumeration\<close>

text \<open>
  \<open>getPatternPasswordByGlobalIndex\<close>: the walk over the lengths \<open>min_len..max_len\<close> with
  the per-length counts (a \<^verbatim>\<open>std::map<int, uint64_t>\<close>).
\<close>

function getPatternPasswordByGlobalIndex_loop ::
  "int \<Rightarrow> int \<Rightarrow> uint64 \<Rightarrow> string list \<Rightarrow> string \<Rightarrow> (int \<rightharpoonup> uint64) \<Rightarrow> string option" where
  "getPatternPasswordByGlobalIndex_loop L max_len current_global_index segments charset
       per_length_counts =
     (if L \<le> max_len then
        (case per_length_counts L of
           None \<Rightarrow>
             getPatternPasswordByGlobalIndex_loop (L + 1) max_len current_global_index
               segments charset per_length_counts
         | Some count_this_length \<Rightarrow>
             if count_this_length = 0 then
               getPatternPasswordByGlobalIndex_loop (L + 1) max_len current_global_index
                 segments charset per_length_counts
             else if current_global_index < count_this_length then
               getPatternPasswordByIndex current_global_index segments charset L
             else if current_global_index < count_this_length then None
             else
               getPatternPasswordByGlobalIndex_loop (L + 1) max_len
                 (current_global_index - count_this_length) segments charset per_length_counts)
      else None)"
  by pat_completeness auto
termination
  by (relation "measure (\<lambda>(L, max_len, _). nat (max_len + 1 - L))") auto

declare getPatternPasswordByGlobalIndex_loop.simps [simp del]

definition getPatternPasswordByGlobalIndex ::
  "uint64 \<Rightarrow> string list \<Rightarrow> string \<Rightarrow> int \<Rightarrow> int \<Rightarrow> (int \<rightharpoonup> uint64) \<Rightarrow> string option" where
  "getPatternPasswordByGlobalIndex global_pattern_index segments charset min_len max_len
       per_length_counts =
     getPatternPasswordByGlobalIndex_loop min_len max_len global_pattern_index segments charset
       per_length_counts"

subsection \<open>Workers\<close>

text \<open>
  A worker is modelled as it runs on its own: the state it shares with the controller
  is passed in and returned. What it does to the outside is recorded as events: a
  status line, or a call \<^verbatim>\<open>filter->serialize(path)\<close>. The status lines printed inside
  the enumerators are not recorded.
\<close>

datatype event = Output string | Serialize string

record shared_state =
  foundFlag :: bool
  foundPassword_out :: string
  stop_requested :: bool
  filter_ptr :: "BloomFilter option"
  events :: "event list"

text \<open>
  What a worker reads from its surroundings: whether a file exists, the verdict of the
  archive tool, whether the mutex pointer is set, the global skip-file path, and the
  hash of the thread id that two workers print.
\<close>

record worker_env =
  stop_flag_exists :: "string \<Rightarrow> bool"
  tryPassword :: "string \<Rightarrow> bool"
  filterMutex :: bool
  skipListFilePath :: string
  thread_id_hash :: nat

definition emit :: "event \<Rightarrow> shared_state \<Rightarrow> shared_state" where
  "emit e s = s\<lparr>events := events s @ [e]\<rparr>"

text \<open>\<^verbatim>\<open>std::to_string\<close> on unsigned and signed integers.\<close>

function to_string :: "nat \<Rightarrow> string" where
  "to_string n =
     (if n < 10 then [''0123456789'' ! n]
      else to_string (n div 10) @ [''0123456789'' ! (n mod 10)])"
  by pat_completeness auto
termination
  by (relation "measure id") auto

declare to_string.simps [simp del]

definition to_string_int :: "int \<Rightarrow> string" where
  "to_string_int i = (if i < 0 then ''-'' @ to_string (nat (- i)) else to_string (nat i))"

text \<open>\<^verbatim>\<open>bool skip = (filter && filter->contains(pwd));\<close>\<close>

definition skip_test :: "shared_state \<Rightarrow> string \<Rightarrow> bool" where
  "skip_test s pwd = (case filter_ptr s of None \<Rightarrow> False | Some f \<Rightarrow> contains f pwd)"

text \<open>
  The compare-and-set on the found flag with the store of the password, and the
  insertion of a rejected candidate under the filter mutex.
\<close>

definition set_found :: "string \<Rightarrow> shared_state \<Rightarrow> shared_state" where
  "set_found pwd s = (if \<not> foundFlag s then s\<lparr>foundFlag := True, foundPassword_out := pwd\<rparr> else s)"

definition insert_rejected :: "worker_env \<Rightarrow> string \<Rightarrow> shared_state \<Rightarrow> shared_state" where
  "insert_rejected env pwd s =
     (case filter_ptr s of
        None \<Rightarrow> s
      | Some f \<Rightarrow> if filterMutex env then s\<lparr>filter_ptr := Some (insert_bf f pwd)\<rparr> else s)"

text \<open>The indices \<open>start_idx, start_idx + 1, \<dots>\<close> below \<open>end_idx\<close> that a worker loop visits.\<close>

definition index_range :: "uint64 \<Rightarrow> uint64 \<Rightarrow> uint64 list" where
  "index_range start_idx end_idx = map word_of_nat [unat start_idx..<unat end_idx]"

fun sequential_password_worker_loop ::
  "worker_env \<Rightarrow> int \<Rightarrow> string \<Rightarrow> uint64 \<Rightarrow> string \<Rightarrow> uint64 list \<Rightarrow> shared_state \<Rightarrow> shared_state" where
  "sequential_password_worker_loop env len charset charsetSize stop_flag_path [] s = s"
| "sequential_password_worker_loop env len charset charsetSize stop_flag_path (idx # rest) s =
     (if foundFlag s \<or> stop_requested s then s
      else
        let pwd = fill_loop 0 len idx charset charsetSize (replicate (nat len) (charset ! 0))
        in if idx mod 1000 = 0 \<and> stop_flag_path \<noteq> [] \<and> stop_flag_exists env stop_flag_path then
             (emit (Output (''INFO: Stop flag detected by sequential worker ''
                              @ to_string (thread_id_hash env) @ ''.'')) s)
               \<lparr>stop_requested := True\<rparr>
           else if skip_test s pwd then
             sequential_password_worker_loop env len charset charsetSize stop_flag_path rest s
           else if tryPassword env pwd then set_found pwd s
           else sequential_password_worker_loop env len charset charsetSize stop_flag_path rest
                  (insert_rejected env pwd s))"

definition sequential_password_worker ::
  "worker_env \<Rightarrow> int \<Rightarrow> uint64 \<Rightarrow> uint64 \<Rightarrow> string \<Rightarrow> string \<Rightarrow> shared_state \<Rightarrow> shared_state" where
  "sequential_password_worker env len start_idx end_idx charset stop_flag_path s =
     (let charsetSize = (word_of_nat (length charset) :: uint64)
      in if charsetSize = 0 then s
         else sequential_password_worker_loop env len charset charsetSize stop_flag_path
                (index_range start_idx end_idx) s)"

fun pattern_index_worker_loop ::
  "worker_env \<Rightarrow> string list \<Rightarrow> string \<Rightarrow> int \<Rightarrow> string \<Rightarrow> uint64 list \<Rightarrow> shared_state \<Rightarrow> shared_state" where
  "pattern_index_worker_loop env segments charset total_length stop_flag_path [] s = s"
| "pattern_index_worker_loop env segments charset total_length stop_flag_path (idx # rest) s =
     (if foundFlag s \<or> stop_requested s then s
      else if idx mod 1000 = 0 \<and> stop_flag_exists env stop_flag_path then
        (if filter_ptr s \<noteq> None \<and> filterMutex env
         then emit (Output ''INFO: Stop flag detected by pattern worker...'')
                (emit (Serialize (skipListFilePath env)) s)
         else s)
          \<lparr>stop_requested := True\<rparr>
      else
        (case getPatternPasswordByIndex idx segments charset total_length of
           Some pwd \<Rightarrow>
             if skip_test s pwd then
               pattern_index_worker_loop env segments charset total_length stop_flag_path rest s
             else if tryPassword env pwd then set_found pwd s
             else pattern_index_worker_loop env segments charset total_length stop_flag_path rest
                    (insert_rejected env pwd s)
         | None \<Rightarrow>
             pattern_index_worker_loop env segments charset total_length stop_flag_path rest
               (emit (Output (''WARN: getPatternPasswordByIndex failed for index ''
                                @ to_string (unat idx) @ '', length ''
                                @ to_string_int total_length)) s)))"

definition pattern_index_worker ::
  "worker_env \<Rightarrow> uint64 \<Rightarrow> uint64 \<Rightarrow> string list \<Rightarrow> string \<Rightarrow> int \<Rightarrow> string \<Rightarrow> shared_state
     \<Rightarrow> shared_state" where
  "pattern_index_worker env start_idx end_idx segments charset total_length stop_flag_path s =
     pattern_index_worker_loop env segments charset total_length stop_flag_path
       (index_range start_idx end_idx) s"

fun shuffled_index_worker_loop ::
  "worker_env \<Rightarrow> uint64 list \<Rightarrow> uint64 \<Rightarrow> string \<Rightarrow> int \<Rightarrow> string \<Rightarrow> uint64 list \<Rightarrow> shared_state
     \<Rightarrow> shared_state" where
  "shuffled_index_worker_loop env shuffled_indices global_index_offset charset max_length
       stop_flag_path [] s = s"
| "shuffled_index_worker_loop env shuffled_indices global_index_offset charset max_length
       stop_flag_path (vec_idx # rest) s =
     (if foundFlag s \<or> stop_requested s then s
      else
        let relative_index = shuffled_indices ! unat vec_idx;
            global_password_index = relative_index + global_index_offset
        in if vec_idx mod 1000 = 0 \<and> stop_flag_path \<noteq> [] \<and> stop_flag_exists env stop_flag_path
           then
             (emit (Output (''INFO: Stop flag detected by shuffled_index_worker ''
                              @ to_string (thread_id_hash env) @ ''.'')) s)
               \<lparr>stop_requested := True\<rparr>
           else
             (case getPasswordByIndex global_password_index charset max_length of
                Some pwd \<Rightarrow>
                  if skip_test s pwd then
                    shuffled_index_worker_loop env shuffled_indices global_index_offset charset
                      max_length stop_flag_path rest s
                  else if tryPassword env pwd then set_found pwd s
                  else shuffled_index_worker_loop env shuffled_indices global_index_offset charset
                         max_length stop_flag_path rest (insert_rejected env pwd s)
              | None \<Rightarrow>
                  shuffled_index_worker_loop env shuffled_indices global_index_offset charset
                    max_length stop_flag_path rest
                    (emit (Output (''WARN: getPasswordByIndex failed for global index ''
                                     @ to_string (unat global_password_index))) s)))"

definition shuffled_index_worker ::
  "worker_env \<Rightarrow> uint64 \<Rightarrow> uint64 \<Rightarrow> uint64 list \<Rightarrow> uint64 \<Rightarrow> string \<Rightarrow> int \<Rightarrow> string
     \<Rightarrow> shared_state \<Rightarrow> shared_state" where
  "shuffled_index_worker env start_vector_idx end_vector_idx shuffled_indices global_index_offset
       charset max_length stop_flag_path s =
     shuffled_index_worker_loop env shuffled_indices global_index_offset charset max_length
       stop_flag_path (index_range start_vector_idx end_vector_idx) s"

fun shuffled_pattern_worker_loop ::
  "worker_env \<Rightarrow> uint64 list \<Rightarrow> string list \<Rightarrow> string \<Rightarrow> int \<Rightarrow> int \<Rightarrow> (int \<rightharpoonup> uint64) \<Rightarrow> string
     \<Rightarrow> uint64 list \<Rightarrow> shared_state \<Rightarrow> shared_state" where
  "shuffled_pattern_worker_loop env shuffled_indices segments charset min_len max_len
       per_length_counts stop_flag_path [] s = s"
| "shuffled_pattern_worker_loop env shuffled_indices segments charset min_len max_len
       per_length_counts stop_flag_path (vec_idx # rest) s =
     (if foundFlag s \<or> stop_requested s then s
      else if vec_idx mod 1000 = 0 \<and> stop_flag_exists env stop_flag_path then
        (if filter_ptr s \<noteq> None \<and> filterMutex env
         then emit (Output ''INFO: Stop flag detected by shuffled pattern worker...'')
                (emit (Serialize (skipListFilePath env)) s)
         else s)
          \<lparr>stop_requested := True\<rparr>
      else
        let global_pattern_index = shuffled_indices ! unat vec_idx
        in (case getPatternPasswordByGlobalIndex global_pattern_index segments charset min_len
                   max_len per_length_counts of
              Some pwd \<Rightarrow>
                if skip_test s pwd then
                  shuffled_pattern_worker_loop env shuffled_indices segments charset min_len
                    max_len per_length_counts stop_flag_path rest s
                else if tryPassword env pwd then set_found pwd s
                else shuffled_pattern_worker_loop env shuffled_indices segments charset min_len
                       max_len per_length_counts stop_flag_path rest (insert_rejected env pwd s)
            | None \<Rightarrow>
                shuffled_pattern_worker_loop env shuffled_indices segments charset min_len
                  max_len per_length_counts stop_flag_path rest
                  (emit (Output (''WARN: getPatternPasswordByGlobalIndex failed for global pattern index ''
                                   @ to_string (unat global_pattern_index))) s)))"

definition shuffled_pattern_worker ::
  "worker_env \<Rightarrow> uint64 \<Rightarrow> uint64 \<Rightarrow> uint64 list \<Rightarrow> string list \<Rightarrow> string \<Rightarrow> int \<Rightarrow> int
     \<Rightarrow> (int \<rightharpoonup> uint64) \<Rightarrow> string \<Rightarrow> shared_state \<Rightarrow> shared_state" where
  "shuffled_pattern_worker env start_vector_idx end_vector_idx shuffled_indices segments charset
       min_len max_len per_length_counts stop_flag_path s =
     shuffled_pattern_worker_loop env shuffled_indices segments charset min_len max_len
       per_length_counts stop_flag_path (index_range start_vector_idx end_vector_idx) s"

text \<open>
  A run in which the stop flag file exists, the filter and its mutex are set, and the
  first index is about to be tried.
\<close>

definition flag_present :: "string \<Rightarrow> bool" where
  "flag_present path = True"

definition rejects_all :: "string \<Rightarrow> bool" where
  "rejects_all pwd = False"

definition stopping_env :: worker_env where
  "stopping_env =
     \<lparr>stop_flag_exists = flag_present, tryPassword = rejects_all, filterMutex = True,
      skipListFilePath = ''skip.bin'', thread_id_hash = 7\<rparr>"

definition fresh_state :: shared_state where
  "fresh_state =
     \<lparr>foundFlag = False, foundPassword_out = [], stop_requested = False,
      filter_ptr = Some minimal_filter, events = []\<rparr>"

subsection \<open>The final save\<close>

text \<open>
  The finalization of \<open>brute_force_worker_combined\<close>, reached when the search returned
  without an exception: from the shared state after all workers are joined it gives the
  events of the finalization and the returned string. \<open>duration\<close> is the printed running
  time and \<open>can_open\<close> tells whether the output file opens.
\<close>

definition final_save :: "worker_env \<Rightarrow> bool \<Rightarrow> string \<Rightarrow> shared_state \<Rightarrow> event list \<times> string" where
  "final_save env can_open duration s =
     (let finished = [Output (''INFO: Brute-force worker processing finished in ''
                                @ duration @ '' seconds.'')];
          stopped = stop_requested s;
          performFinalSave =
            (case filter_ptr s of
               None \<Rightarrow> False
             | Some f \<Rightarrow> filterMutex env \<and> skipListFilePath env \<noteq> [] \<and> isValid f
                          \<and> (foundFlag s \<or> stopped));
          save_events =
            (if performFinalSave then
               (case filter_ptr s of
                  None \<Rightarrow> []
                | Some f \<Rightarrow>
                    [Output ''INFO: Performing final save of skip list state...'',
                     Serialize (skipListFilePath env),
                     if fst (serialize can_open f)
                     then Output (''INFO: Skip list final state saved successfully to: ''
                                    @ skipListFilePath env)
                     else Output ''ERROR: Failed to save final skip list state!''])
             else
               (case filter_ptr s of
                  Some f \<Rightarrow>
                    if skipListFilePath env \<noteq> [] then
                      (if \<not> isValid f then
                         [Output ''INFO: Final skip list save skipped because filter became invalid during run.'']
                       else if \<not> foundFlag s \<and> \<not> stopped then
                         [Output ''INFO: Final skip list save skipped (process finished normally without finding password or being stopped).'']
                       else if \<not> foundFlag s \<and> stopped then
                         [Output ''INFO: Final skip list save skipped (process stopped but filter might be invalid or save condition not met).'']
                       else [])
                    else []
                | None \<Rightarrow>
                    if skipListFilePath env \<noteq> [] then
                      [Output ''INFO: Final skip list save skipped (filter pointer was null or path empty).'']
                    else []))
      in if foundFlag s then (finished @ save_events, foundPassword_out s)
         else if stopped then
           (finished @ save_events @ [Output ''INFO: Process stopped by user request.''], [])
         else
           (finished @ save_events
              @ [Output ''INFO: Exhausted search space without finding password.''], []))"

text \<open>A search that ran to its end: nothing found, no stop requested.\<close>

definition exhausted_state :: shared_state where
  "exhausted_state =
     \<lparr>foundFlag = False, foundPassword_out = [], stop_requested = False,
      filter_ptr = Some minimal_filter, events = []\<rparr>"

definition found_state :: shared_state where
  "found_state =
     \<lparr>foundFlag = True, foundPassword_out = ''ab'', stop_requested = False,
      filter_ptr = Some minimal_filter, events = []\<rparr>"

chapter \<open>Verified properties\<close>

section \<open>Properties of the filter\<close>

lemma insert_loop_length: "length (insert_loop bits hs) = length bits"
  by (induction hs arbitrary: bits) simp_all

lemma insert_loop_nth:
  "j < length bits \<Longrightarrow> insert_loop bits hs ! j = (bits ! j \<or> j \<in> unat ` set hs)"
proof (induction hs arbitrary: bits)
  case Nil
  then show ?case by simp
next
  case (Cons h hs)
  have "insert_loop (bits[unat h := True]) hs ! j
          = (bits[unat h := True] ! j \<or> j \<in> unat ` set hs)"
    using Cons.prems by (intro Cons.IH) simp
  with Cons.prems show ?case by (cases "unat h = j") auto
qed

lemma contains_loop_iff: "contains_loop bits hs = (\<forall>h \<in> set hs. bits ! unat h)"
  by (induction hs) auto

lemma generate_hashes_set:
  "set (generate_hashes f item) =
     (\<lambda>i. (h1_of item + word_of_nat i * h2_of item) mod m_num_bits f) ` {..<unat (m_num_hashes f)}"
  by (auto simp: generate_hashes_def)

lemma generate_hashes_in_range:
  assumes "isValid f" "size_invariant f" "h \<in> set (generate_hashes f item)"
  shows "unat h < length (m_bits f)"
proof -
  from assms(1,2) have pos: "0 < unat (m_num_bits f)"
    by (cases "m_bits f") (auto simp: isValid_def size_invariant_def)
  from assms(3) obtain x where "h = x mod m_num_bits f"
    by (auto simp: generate_hashes_def)
  then have "unat h = unat x mod unat (m_num_bits f)" by (simp add: unat_mod)
  with pos assms(2) show ?thesis by (simp add: size_invariant_def)
qed

text \<open>
  C10. On a filter whose \<open>isValid\<close> is false, \<open>contains\<close> answers false for every
  string and \<open>insert\<close> (here \<open>insert_bf\<close>) returns the filter state unchanged.
\<close>

theorem invalid_filter_untouched:
  "\<not> isValid f \<Longrightarrow> contains f s = False \<and> insert_bf f s = f"
  by (simp add: contains_def insert_bf_def)

theorem invalid_filter_untouched_witness:
  "\<not> isValid BloomFilter_default \<and> contains BloomFilter_default ''ab'' = False
     \<and> insert_bf BloomFilter_default ''ab'' = BloomFilter_default"
proof -
  have h: "\<not> isValid BloomFilter_default"
    by (simp add: isValid_def BloomFilter_default_def)
  show ?thesis using h invalid_filter_untouched [OF h, of "''ab''"] by simp
qed

lemma insert_loop_Nil_iff: "insert_loop bits hs = [] \<longleftrightarrow> bits = []"
  using insert_loop_length [of bits hs] by (metis length_0_conv)

lemma insert_valid: "isValid (insert_bf f s) = isValid f"
  by (auto simp: insert_bf_def isValid_def insert_loop_Nil_iff)

lemma insert_fields:
  "m_num_bits (insert_bf f s) = m_num_bits f" "m_num_hashes (insert_bf f s) = m_num_hashes f"
  "m_estimated_items (insert_bf f s) = m_estimated_items f" "m_fp_rate (insert_bf f s) = m_fp_rate f"
  "length (m_bits (insert_bf f s)) = length (m_bits f)"
  by (simp_all add: insert_bf_def insert_loop_length)

lemma generate_hashes_insert: "generate_hashes (insert_bf f s) t = generate_hashes f t"
  by (simp add: generate_hashes_def insert_fields)

lemma insert_size_invariant: "size_invariant f \<Longrightarrow> size_invariant (insert_bf f s)"
  by (simp add: size_invariant_def insert_fields)

text \<open>
  C4. In a filter that reports valid (with its bit vector of \<open>m_num_bits\<close> bits),
  \<open>insert\<close> followed by \<open>contains\<close> on the same string answers true. \<open>insert\<close>
  sets the bits at the positions \<open>(h1 + i * h2) mod m\<close> for \<open>i < k\<close> and no other;
  \<open>contains\<close> answers true exactly when all of these positions are set; both take the
  positions from the same \<open>generate_hashes\<close>.
\<close>

theorem insert_then_contains:
  assumes "isValid f" and "size_invariant f"
  shows "contains (insert_bf f s) s
    \<and> (\<forall>i < unat (m_num_hashes f).
          m_bits (insert_bf f s) ! unat ((h1_of s + word_of_nat i * h2_of s) mod m_num_bits f))
    \<and> contains f s = (\<forall>i < unat (m_num_hashes f).
          m_bits f ! unat ((h1_of s + word_of_nat i * h2_of s) mod m_num_bits f))
    \<and> (\<forall>j < length (m_bits f). m_bits (insert_bf f s) ! j =
          (m_bits f ! j \<or> (\<exists>i < unat (m_num_hashes f).
              j = unat ((h1_of s + word_of_nat i * h2_of s) mod m_num_bits f))))"
proof -
  let ?hs = "generate_hashes f s"
  have bits: "m_bits (insert_bf f s) = insert_loop (m_bits f) ?hs"
    using assms(1) by (simp add: insert_bf_def)
  have rng: "\<And>h. h \<in> set ?hs \<Longrightarrow> unat h < length (m_bits f)"
    using assms by (rule generate_hashes_in_range)
  have set_after: "\<And>h. h \<in> set ?hs \<Longrightarrow> insert_loop (m_bits f) ?hs ! unat h"
    using rng by (simp add: insert_loop_nth)
  have c1: "contains (insert_bf f s) s"
    using assms(1) set_after
    by (simp add: contains_def insert_valid generate_hashes_insert bits contains_loop_iff)
  have c2: "\<forall>i < unat (m_num_hashes f).
          m_bits (insert_bf f s) ! unat ((h1_of s + word_of_nat i * h2_of s) mod m_num_bits f)"
    using set_after by (simp add: bits generate_hashes_set)
  have c3: "contains f s = (\<forall>i < unat (m_num_hashes f).
          m_bits f ! unat ((h1_of s + word_of_nat i * h2_of s) mod m_num_bits f))"
    using assms(1) by (auto simp: contains_def contains_loop_iff generate_hashes_set)
  have c4: "\<forall>j < length (m_bits f). m_bits (insert_bf f s) ! j =
          (m_bits f ! j \<or> (\<exists>i < unat (m_num_hashes f).
              j = unat ((h1_of s + word_of_nat i * h2_of s) mod m_num_bits f)))"
    by (auto simp: bits insert_loop_nth generate_hashes_set)
  from c1 c2 c3 c4 show ?thesis by blast
qed

theorem insert_then_contains_witness:
  "isValid minimal_filter \<and> size_invariant minimal_filter
     \<and> contains (insert_bf minimal_filter ''ab'') ''ab''"
proof -
  have v: "isValid minimal_filter" by (simp add: minimal_filter_def isValid_def)
  have i: "size_invariant minimal_filter" by (simp add: minimal_filter_def size_invariant_def)
  show ?thesis using v i insert_then_contains [OF v i, of "''ab''"] by simp
qed

lemma le_bytes_length [simp]: "length (le_bytes n w) = n"
  by (simp add: le_bytes_def)

lemma le_bytes_Suc: "le_bytes (Suc n) w = ucast w # le_bytes n (drop_bit 8 w)"
proof -
  have "[0..<Suc n] = 0 # map Suc [0..<n]"
    by (simp add: upt_conv_Cons map_Suc_upt del: upt_Suc)
  then show ?thesis
    by (simp add: le_bytes_def drop_bit_drop_bit comp_def add.commute del: upt_Suc)
qed

lemma from_le_le_bytes_take: "(from_le (le_bytes n w) :: 'a::len word) = take_bit (8 * n) w"
proof (induction n arbitrary: w)
  case 0
  then show ?case by (simp add: le_bytes_def)
next
  case (Suc n)
  show ?case
    apply (simp add: le_bytes_Suc Suc.IH)
    apply (rule bit_eqI)
    apply (auto simp: bit_simps)
    done
qed

lemma from_le_le_bytes:
  "LENGTH('a::len) \<le> 8 * n \<Longrightarrow> (from_le (le_bytes n w) :: 'a word) = w"
  by (simp add: from_le_le_bytes_take take_bit_word_eq_self)


lemma unpack_test: "((drop_bit k (w :: uint8) AND 1) \<noteq> 0) = bit w k"
  by (simp add: bit_iff_odd_drop_bit and_one_eq odd_iff_mod_2_eq_one)

lemma unpack_bits_length [simp]: "length (unpack_bits m packed) = unat m"
  by (simp add: unpack_bits_def)

lemma unpack_bits_nth:
  "i < unat m \<Longrightarrow> unpack_bits m packed ! i = bit (packed ! (i div 8)) (i mod 8)"
  by (simp add: unpack_bits_def unpack_test)

lemma pack_step_length [simp]: "length (pack_step bits i packed) = length packed"
  by (simp add: pack_step_def)

lemma div_mod_8_eq: "(i::nat) div 8 = j div 8 \<Longrightarrow> i mod 8 = j mod 8 \<Longrightarrow> i = j"
  by (metis div_mult_mod_eq)

lemma pack_step_bit:
  assumes "j div 8 < length packed" "i div 8 < length packed"
  shows "bit (pack_step bits j packed ! (i div 8)) (i mod 8)
           = (bit (packed ! (i div 8)) (i mod 8) \<or> (i = j \<and> bits ! j))"
proof (cases "bits ! j")
  case False
  then show ?thesis by (simp add: pack_step_def)
next
  case True
  show ?thesis
  proof (cases "i div 8 = j div 8")
    case d: True
    have "bit (push_bit (j mod 8) (1::uint8)) (i mod 8) = (i mod 8 = j mod 8)"
      by (auto simp: bit_simps)
    with True d assms show ?thesis
      by (auto simp: pack_step_def bit_simps dest: div_mod_8_eq)
  next
    case d: False
    with True assms show ?thesis by (auto simp: pack_step_def)
  qed
qed

lemma pack_fold_inv:
  assumes "j \<le> 8 * nb"
  shows "length (fold (pack_step bits) [0..<j] (replicate nb 0)) = nb
     \<and> (\<forall>i. i div 8 < nb \<longrightarrow>
          bit (fold (pack_step bits) [0..<j] (replicate nb (0::uint8)) ! (i div 8)) (i mod 8)
            = (i < j \<and> bits ! i))"
  using assms
proof (induction j)
  case 0
  then show ?case by simp
next
  case (Suc j)
  let ?p = "fold (pack_step bits) [0..<j] (replicate nb (0::uint8))"
  from Suc have len: "length ?p = nb"
    and ih: "\<And>i. i div 8 < nb \<Longrightarrow> bit (?p ! (i div 8)) (i mod 8) = (i < j \<and> bits ! i)"
    by auto
  from Suc.prems have jb: "j div 8 < nb" by simp
  have step: "fold (pack_step bits) [0..<Suc j] (replicate nb 0) = pack_step bits j ?p"
    by simp
  show ?case
    unfolding step
  proof (intro conjI allI impI)
    show "length (pack_step bits j ?p) = nb" by (simp add: len)
  next
    fix i assume "i div 8 < nb"
    then show "bit (pack_step bits j ?p ! (i div 8)) (i mod 8) = (i < Suc j \<and> bits ! i)"
      using jb len ih [of i] by (auto simp: pack_step_bit less_Suc_eq)
  qed
qed

lemma num_bytes_unat:
  "unat (m :: uint64) + 7 < 2 ^ 64 \<Longrightarrow> unat ((m + 7) div 8) = (unat m + 7) div 8"
  by (simp add: unat_div unat_word_ariths)

lemma pack_bits_length:
  "unat (m :: uint64) + 7 < 2 ^ 64 \<Longrightarrow> length (pack_bits m bits) = (unat m + 7) div 8"
  using pack_fold_inv [of "unat m" "(unat m + 7) div 8" bits]
  by (simp add: pack_bits_def num_bytes_unat)

lemma pack_bits_bit:
  assumes "unat (m :: uint64) + 7 < 2 ^ 64" "i < unat m"
  shows "bit (pack_bits m bits ! (i div 8)) (i mod 8) = bits ! i"
proof -
  have "i div 8 < (unat m + 7) div 8" using assms(2) by simp
  with pack_fold_inv [of "unat m" "(unat m + 7) div 8" bits] assms show ?thesis
    by (simp add: pack_bits_def num_bytes_unat)
qed

lemma unpack_pack:
  assumes "unat (m :: uint64) + 7 < 2 ^ 64" "length bits = unat m"
  shows "unpack_bits m (pack_bits m bits) = bits"
  using assms by (intro nth_equalityI) (simp_all add: unpack_bits_nth pack_bits_bit)


lemma ifs_read_exact:
  "length a = n \<Longrightarrow>
     ifs_read n dst \<lparr>unread = a @ rest, failbit = False\<rparr> = (a, \<lparr>unread = rest, failbit = False\<rparr>)"
  by (simp add: ifs_read_def)

lemma ifs_read_ok:
  assumes "ifs_read n dst ifs = (bs, ifs')" "\<not> failbit ifs'"
  shows "\<not> failbit ifs \<and> n \<le> length (unread ifs) \<and> bs = take n (unread ifs)
           \<and> unread ifs' = drop n (unread ifs)"
  using assms by (auto simp: ifs_read_def split: if_splits)

lemma ifs_read_failed:
  "failbit ifs \<Longrightarrow> failbit (snd (ifs_read n dst ifs))"
  by (simp add: ifs_read_def)

lemma deserialize_serialized:
  assumes "m \<noteq> 0" "k \<noteq> 0" "unat m + 7 < 2 ^ 64" "length bits = unat m" "alloc (unat m)"
  shows "deserialize alloc
           (Some (le_bytes 4 BLOOM_FILTER_MAGIC @ le_bytes 2 BLOOM_FILTER_VERSION
                  @ le_bytes 8 m @ le_bytes 4 k @ le_bytes 8 n @ le_bytes 8 p @ pack_bits m bits)) g
         = (True, \<lparr>m_num_bits = m, m_num_hashes = k, m_estimated_items = n, m_fp_rate = p,
                   m_bits = bits\<rparr>)"
proof -
  have len: "length (pack_bits m bits) = unat ((m + 7) div 8)"
    using assms(3) by (simp add: pack_bits_length num_bytes_unat)
  have last: "ifs_read (unat ((m + 7) div 8)) dst \<lparr>unread = pack_bits m bits, failbit = False\<rparr>
               = (pack_bits m bits, \<lparr>unread = [], failbit = False\<rparr>)" for dst
    using ifs_read_exact [of "pack_bits m bits" _ dst "[]"] len by simp
  show ?thesis
    using assms
    by (simp add: deserialize_def ifs_read_exact from_le_le_bytes last unpack_pack)
qed

text \<open>
  C5. For a filter that reports valid (its bit vector of \<open>m_num_bits\<close> bits, fewer
  than \<open>2^64 - 7\<close> of them, as every vector the allocator can grant), \<open>serialize\<close>
  on a stream that opens succeeds, and \<open>deserialize\<close> of the bytes written, into the
  default-constructed filter or any other, succeeds when the bit vector can be allocated
  and yields the same filter: the same bit vector and the same \<open>m\<close>, \<open>k\<close>, \<open>n\<close>
  and \<open>p\<close>. The bytes are, least significant byte first, the magic, the version,
  \<open>m\<close>, \<open>k\<close>, \<open>n\<close>, \<open>p\<close>, then \<open>(m + 7) div 8\<close> bytes that hold bit \<open>i\<close> in
  byte \<open>i div 8\<close> at bit position \<open>i mod 8\<close>.
\<close>

theorem serialize_deserialize_roundtrip:
  assumes "isValid f" and "size_invariant f" and "unat (m_num_bits f) + 7 < 2 ^ 64"
    and "alloc (unat (m_num_bits f))"
  shows "\<exists>bytes packed.
      serialize True f = (True, Some bytes)
    \<and> deserialize alloc (Some bytes) g = (True, f)
    \<and> bytes = le_bytes 4 BLOOM_FILTER_MAGIC @ le_bytes 2 BLOOM_FILTER_VERSION
              @ le_bytes 8 (m_num_bits f) @ le_bytes 4 (m_num_hashes f)
              @ le_bytes 8 (m_estimated_items f) @ le_bytes 8 (m_fp_rate f) @ packed
    \<and> length packed = (unat (m_num_bits f) + 7) div 8
    \<and> (\<forall>i < unat (m_num_bits f). bit (packed ! (i div 8)) (i mod 8) = m_bits f ! i)"
proof -
  let ?packed = "pack_bits (m_num_bits f) (m_bits f)"
  let ?bytes = "le_bytes 4 BLOOM_FILTER_MAGIC @ le_bytes 2 BLOOM_FILTER_VERSION
              @ le_bytes 8 (m_num_bits f) @ le_bytes 4 (m_num_hashes f)
              @ le_bytes 8 (m_estimated_items f) @ le_bytes 8 (m_fp_rate f) @ ?packed"
  have s: "serialize True f = (True, Some ?bytes)"
    using assms(1) by (simp add: serialize_def)
  have m0: "m_num_bits f \<noteq> 0"
    using assms(1,2) by (cases "m_bits f") (auto simp: isValid_def size_invariant_def)
  have k0: "m_num_hashes f \<noteq> 0"
    using assms(1) by (auto simp: isValid_def)
  have "deserialize alloc (Some ?bytes) g
         = (True, \<lparr>m_num_bits = m_num_bits f, m_num_hashes = m_num_hashes f,
                   m_estimated_items = m_estimated_items f, m_fp_rate = m_fp_rate f,
                   m_bits = m_bits f\<rparr>)"
    using m0 k0 assms(2,3,4) by (intro deserialize_serialized) (simp_all add: size_invariant_def)
  then have d: "deserialize alloc (Some ?bytes) g = (True, f)" by simp
  have l: "length ?packed = (unat (m_num_bits f) + 7) div 8"
    using assms(3) by (rule pack_bits_length)
  have b: "\<forall>i < unat (m_num_bits f). bit (?packed ! (i div 8)) (i mod 8) = m_bits f ! i"
    using assms(3) by (simp add: pack_bits_bit)
  from s d l b show ?thesis by blast
qed

theorem serialize_deserialize_roundtrip_witness:
  "deserialize always_alloc (snd (serialize True (insert_bf minimal_filter ''ab''))) BloomFilter_default
     = (True, insert_bf minimal_filter ''ab'')"
proof -
  let ?f = "insert_bf minimal_filter ''ab''"
  have v: "isValid ?f"
    unfolding insert_valid by (simp add: minimal_filter_def isValid_def)
  have i: "size_invariant ?f"
    by (intro insert_size_invariant) (simp add: minimal_filter_def size_invariant_def)
  have b: "unat (m_num_bits ?f) + 7 < 2 ^ 64" by (simp add: insert_fields minimal_filter_def)
  have a: "always_alloc (unat (m_num_bits ?f))" by (simp add: always_alloc_def)
  from serialize_deserialize_roundtrip
         [where alloc = always_alloc and f = "insert_bf minimal_filter ''ab''"
            and g = BloomFilter_default, OF v i b a]
  show ?thesis by auto
qed

lemma ctor_ranges:
  assumes "BloomFilter_ctor alloc fpo mc kc n p = Some f"
  shows "isValid f \<and> size_invariant f \<and> 8 \<le> m_num_bits f
           \<and> 1 \<le> m_num_hashes f \<and> m_num_hashes f \<le> 20"
proof (cases "n = 0 \<or> fpo")
  case True
  with assms have "f = \<lparr>m_num_bits = 8, m_num_hashes = 1, m_estimated_items = n,
              m_fp_rate = p, m_bits = replicate 8 False\<rparr>"
    by (auto simp: BloomFilter_ctor_def)
  then show ?thesis by (simp add: isValid_def size_invariant_def)
next
  case False
  define m where "m = (if mc < 8 then 8 else mc)"
  define k where "k = (if (if kc < 1 then 1 else kc) > 20 then 20 else (if kc < 1 then 1 else kc))"
  from False assms have f: "f = \<lparr>m_num_bits = m, m_num_hashes = k, m_estimated_items = n,
              m_fp_rate = p, m_bits = replicate (unat m) False\<rparr>"
    by (auto simp: BloomFilter_ctor_def Let_def m_def k_def split: if_splits)
  have m8: "8 \<le> m" by (simp add: m_def not_less)
  then have "8 \<le> unat m" by (simp add: word_le_nat_alt)
  then have ne: "replicate (unat m) False \<noteq> []" by auto
  have k1: "1 \<le> k" and k20: "k \<le> 20"
    by (auto simp: k_def not_less word_le_nat_alt Suc_le_eq unat_gt_0)
  from k1 have kpos: "0 < k" by (simp add: word_le_nat_alt word_less_nat_alt)
  show ?thesis
    using f m8 ne k1 k20 kpos by (simp add: isValid_def size_invariant_def)
qed

lemma deserialize_accept:
  assumes "deserialize alloc file g = (True, f)"
  shows "isValid f \<and> size_invariant f \<and> 1 \<le> m_num_bits f \<and> 1 \<le> m_num_hashes f
     \<and> (\<exists>bytes. file = Some bytes
           \<and> (from_le (take 4 bytes) :: uint32) = BLOOM_FILTER_MAGIC
           \<and> (from_le (take 2 (drop 4 bytes)) :: uint16) = BLOOM_FILTER_VERSION
           \<and> m_num_bits f = from_le (take 8 (drop 6 bytes))
           \<and> m_num_hashes f = from_le (take 4 (drop 14 bytes))
           \<and> m_estimated_items f = from_le (take 8 (drop 18 bytes))
           \<and> m_fp_rate f = from_le (take 8 (drop 26 bytes))
           \<and> length bytes = 34 + unat ((m_num_bits f + 7) div 8)
           \<and> m_bits f = unpack_bits (m_num_bits f) (drop 34 bytes))"
proof -
  from assms obtain bytes where fl: "file = Some bytes"
    by (cases "file") (auto simp: deserialize_def)
  obtain b1 s1 where r1: "ifs_read 4 (le_bytes 4 (0 :: uint32)) \<lparr>unread = bytes, failbit = False\<rparr> = (b1, s1)"
    by fastforce
  obtain b2 s2 where r2: "ifs_read 2 (le_bytes 2 (0 :: uint16)) s1 = (b2, s2)" by fastforce
  obtain b3 s3 where r3: "ifs_read 8 (le_bytes 8 (m_num_bits g)) s2 = (b3, s3)" by fastforce
  obtain b4 s4 where r4: "ifs_read 4 (le_bytes 4 (m_num_hashes g)) s3 = (b4, s4)" by fastforce
  obtain b5 s5 where r5: "ifs_read 8 (le_bytes 8 (m_estimated_items g)) s4 = (b5, s5)" by fastforce
  obtain b6 s6 where r6: "ifs_read 8 (le_bytes 8 (m_fp_rate g)) s5 = (b6, s6)" by fastforce
  define nb where "nb = unat (((from_le b3 :: uint64) + 7) div 8)"
  obtain b7 s7 where r7: "ifs_read nb (replicate nb 0) s6 = (b7, s7)" by fastforce
  from assms have ok:
    "\<not> failbit s1" "(from_le b1 :: uint32) = BLOOM_FILTER_MAGIC"
    "\<not> failbit s2" "(from_le b2 :: uint16) = BLOOM_FILTER_VERSION"
    "\<not> failbit s6" "(from_le b3 :: uint64) \<noteq> 0" "(from_le b4 :: uint32) \<noteq> 0"
    "\<not> failbit s7" "unread s7 = []"
    and f: "f = g\<lparr>m_num_bits := from_le b3, m_num_hashes := from_le b4,
                  m_estimated_items := from_le b5, m_fp_rate := from_le b6,
                  m_bits := unpack_bits (from_le b3) b7\<rparr>"
    unfolding deserialize_def fl
    by (auto simp: r1 r2 r3 r4 r5 r6 r7 [unfolded nb_def] Let_def invalidate_def
          split: if_splits)
  from ifs_read_ok [OF r7 ok(8)] have 7: "\<not> failbit s6" "nb \<le> length (unread s6)"
    "b7 = take nb (unread s6)" "unread s7 = drop nb (unread s6)" by auto
  from ifs_read_ok [OF r6 7(1)] have 6: "\<not> failbit s5" "8 \<le> length (unread s5)"
    "b6 = take 8 (unread s5)" "unread s6 = drop 8 (unread s5)" by auto
  from ifs_read_ok [OF r5 6(1)] have 5: "\<not> failbit s4" "8 \<le> length (unread s4)"
    "b5 = take 8 (unread s4)" "unread s5 = drop 8 (unread s4)" by auto
  from ifs_read_ok [OF r4 5(1)] have 4: "\<not> failbit s3" "4 \<le> length (unread s3)"
    "b4 = take 4 (unread s3)" "unread s4 = drop 4 (unread s3)" by auto
  from ifs_read_ok [OF r3 4(1)] have 3: "\<not> failbit s2" "8 \<le> length (unread s2)"
    "b3 = take 8 (unread s2)" "unread s3 = drop 8 (unread s2)" by auto
  from ifs_read_ok [OF r2 3(1)] have 2: "\<not> failbit s1" "2 \<le> length (unread s1)"
    "b2 = take 2 (unread s1)" "unread s2 = drop 2 (unread s1)" by auto
  from ifs_read_ok [OF r1 2(1)] have 1: "4 \<le> length bytes"
    "b1 = take 4 bytes" "unread s1 = drop 4 bytes" by auto
  have u2: "unread s2 = drop 6 bytes" by (simp add: 2 1)
  have u3: "unread s3 = drop 14 bytes" by (simp add: 3 u2)
  have u4: "unread s4 = drop 18 bytes" by (simp add: 4 u3)
  have u5: "unread s5 = drop 26 bytes" by (simp add: 5 u4)
  have u6: "unread s6 = drop 34 bytes" by (simp add: 6 u5)
  have len: "length bytes = 34 + nb"
    using 7(2,4) ok(9) 6(2) u5 u6 by simp
  have b7: "b7 = drop 34 bytes" using 7(3) u6 len by simp
  have mpos: "0 < unat (from_le b3 :: uint64)" using ok(6) by (simp add: unat_gt_0)
  have v: "isValid f" using mpos ok(7)
    by (auto simp: f isValid_def unpack_bits_def word_greater_zero_iff)
  have si: "size_invariant f" by (simp add: f size_invariant_def)
  have m1: "1 \<le> m_num_bits f" using ok(6) by (simp add: f word_le_nat_alt unat_gt_0 Suc_le_eq)
  have k1: "1 \<le> m_num_hashes f" using ok(7) by (simp add: f word_le_nat_alt unat_gt_0 Suc_le_eq)
  have e1: "(from_le (take 4 bytes) :: uint32) = BLOOM_FILTER_MAGIC"
    using ok(2) 1(2) by simp
  have e2: "(from_le (take 2 (drop 4 bytes)) :: uint16) = BLOOM_FILTER_VERSION"
    using ok(4) 2(3) 1(3) by simp
  have e3: "m_num_bits f = from_le (take 8 (drop 6 bytes))"
    using 3(3) u2 by (simp add: f)
  have e4: "m_num_hashes f = from_le (take 4 (drop 14 bytes))"
    using 4(3) u3 by (simp add: f)
  have e5: "m_estimated_items f = from_le (take 8 (drop 18 bytes))"
    using 5(3) u4 by (simp add: f)
  have e6: "m_fp_rate f = from_le (take 8 (drop 26 bytes))"
    using 6(3) u5 by (simp add: f)
  have e7: "length bytes = 34 + unat ((m_num_bits f + 7) div 8)"
    using len by (simp add: f nb_def)
  have e8: "m_bits f = unpack_bits (m_num_bits f) (drop 34 bytes)"
    using b7 by (simp add: f)
  from v si m1 k1 fl e1 e2 e3 e4 e5 e6 e7 e8 show ?thesis by blast
qed

lemma deserialize_reject_fresh:
  assumes "deserialize alloc file BloomFilter_default = (False, f)"
  shows "\<not> isValid f"
  using assms
  by (cases "file")
     (auto simp: deserialize_def Let_def isValid_def invalidate_def BloomFilter_default_def
           split: if_splits prod.splits)

lemma tiny_filter_file_eval:
  "deserialize always_alloc (Some tiny_filter_file) BloomFilter_default
     = (True, \<lparr>m_num_bits = 1, m_num_hashes = 21, m_estimated_items = 0, m_fp_rate = 0,
                m_bits = [True]\<rparr>)"
  by (simp add: deserialize_def tiny_filter_file_def BloomFilter_default_def ifs_read_def
        BLOOM_FILTER_MAGIC_def BLOOM_FILTER_VERSION_def always_alloc_def unpack_bits_def
        le_bytes_def)

text \<open>
  C7 (amended). A filter built by the constructor reports valid and has \<open>m \<ge> 8\<close> and
  \<open>1 \<le> k \<le> 20\<close>. A filter that \<open>deserialize\<close> accepts reports valid and has
  \<open>m \<ge> 1\<close>, \<open>k \<ge> 1\<close> and a bit vector of exactly \<open>m\<close> bits, and the file had the
  magic, the version, these parameters and exactly \<open>(m + 7) div 8\<close> bytes after its 34
  header bytes; \<open>deserialize\<close> does not compare \<open>m\<close> with 8 or \<open>k\<close> with 20. A
  rejection leaves a default-constructed filter invalid.
\<close>

theorem filter_state_ranges:
  "(BloomFilter_ctor alloc fpo mc kc n p = Some f \<longrightarrow>
      isValid f \<and> size_invariant f \<and> 8 \<le> m_num_bits f
        \<and> 1 \<le> m_num_hashes f \<and> m_num_hashes f \<le> 20)
   \<and> (deserialize alloc' fl g = (True, f') \<longrightarrow>
      isValid f' \<and> size_invariant f' \<and> 1 \<le> m_num_bits f' \<and> 1 \<le> m_num_hashes f'
        \<and> (\<exists>bytes. fl = Some bytes
           \<and> (from_le (take 4 bytes) :: uint32) = BLOOM_FILTER_MAGIC
           \<and> (from_le (take 2 (drop 4 bytes)) :: uint16) = BLOOM_FILTER_VERSION
           \<and> m_num_bits f' = from_le (take 8 (drop 6 bytes))
           \<and> m_num_hashes f' = from_le (take 4 (drop 14 bytes))
           \<and> length bytes = 34 + unat ((m_num_bits f' + 7) div 8)))
   \<and> (deserialize alloc'' fl' BloomFilter_default = (False, f'') \<longrightarrow> \<not> isValid f'')"
proof (intro conjI impI)
  assume "deserialize alloc' fl g = (True, f')"
  from deserialize_accept [OF this]
  show "\<exists>bytes. fl = Some bytes
           \<and> (from_le (take 4 bytes) :: uint32) = BLOOM_FILTER_MAGIC
           \<and> (from_le (take 2 (drop 4 bytes)) :: uint16) = BLOOM_FILTER_VERSION
           \<and> m_num_bits f' = from_le (take 8 (drop 6 bytes))
           \<and> m_num_hashes f' = from_le (take 4 (drop 14 bytes))
           \<and> length bytes = 34 + unat ((m_num_bits f' + 7) div 8)"
    by blast
qed (use ctor_ranges deserialize_accept deserialize_reject_fresh in blast)+

theorem filter_state_ranges_witness:
  "8 \<le> m_num_bits \<lparr>m_num_bits = 8, m_num_hashes = 20, m_estimated_items = 5, m_fp_rate = 0,
                m_bits = replicate 8 False\<rparr>
   \<and> isValid \<lparr>m_num_bits = 1, m_num_hashes = 21, m_estimated_items = 0, m_fp_rate = 0,
                m_bits = [True]\<rparr>
   \<and> \<not> isValid BloomFilter_default"
proof -
  have c: "BloomFilter_ctor always_alloc False 3 25 5 0
             = Some \<lparr>m_num_bits = 8, m_num_hashes = 20, m_estimated_items = 5, m_fp_rate = 0,
                m_bits = replicate 8 False\<rparr>"
    by (simp add: BloomFilter_ctor_def always_alloc_def)
  have r: "deserialize always_alloc None BloomFilter_default = (False, BloomFilter_default)"
    by (simp add: deserialize_def)
  from filter_state_ranges
    [where alloc = always_alloc and fpo = False and mc = 3 and kc = 25 and n = 5 and p = 0
       and f = "\<lparr>m_num_bits = 8, m_num_hashes = 20, m_estimated_items = 5, m_fp_rate = 0,
                m_bits = replicate 8 False\<rparr>"
       and alloc' = always_alloc and fl = "Some tiny_filter_file" and g = BloomFilter_default
       and f' = "\<lparr>m_num_bits = 1, m_num_hashes = 21, m_estimated_items = 0, m_fp_rate = 0,
                m_bits = [True]\<rparr>"
       and alloc'' = always_alloc and fl' = None and f'' = BloomFilter_default]
    c r tiny_filter_file_eval
  show ?thesis by simp
qed

text \<open>
  C7 as stated fails: \<open>deserialize\<close> accepts a file whose filter has one bit and
  twenty-one hashes, and the state reports valid.
\<close>

theorem deserialize_accepts_out_of_range:
  "deserialize always_alloc (Some tiny_filter_file) BloomFilter_default
     = (True, \<lparr>m_num_bits = 1, m_num_hashes = 21, m_estimated_items = 0, m_fp_rate = 0,
                m_bits = [True]\<rparr>)
   \<and> isValid \<lparr>m_num_bits = 1, m_num_hashes = 21, m_estimated_items = 0, m_fp_rate = 0,
                m_bits = [True]\<rparr>
   \<and> \<not> 8 \<le> m_num_bits \<lparr>m_num_bits = 1, m_num_hashes = 21, m_estimated_items = 0,
                m_fp_rate = 0, m_bits = [True]\<rparr>
   \<and> \<not> m_num_hashes \<lparr>m_num_bits = 1, m_num_hashes = 21, m_estimated_items = 0,
                m_fp_rate = 0, m_bits = [True]\<rparr> \<le> 20"
  using tiny_filter_file_eval by (simp add: isValid_def word_le_nat_alt)

section \<open>Properties of the pattern analyzer\<close>

lemma calculate_pattern_info_loop_eq:
  "calculate_pattern_info_loop segs fl ns =
     \<lparr>fixed_length = fl + int (fixed_len segs), num_stars = ns + int (star_count segs)\<rparr>"
  by (induction segs arbitrary: fl ns)
     (auto simp: fixed_len_def star_count_def any_one_count_def)

lemma calculate_pattern_info_eq:
  "calculate_pattern_info segs =
     \<lparr>fixed_length = int (fixed_len segs), num_stars = int (star_count segs)\<rparr>"
  by (simp add: calculate_pattern_info_def calculate_pattern_info_loop_eq)

lemma count_qmarks_eq: "count_qmarks segs n = n + int (any_one_count segs)"
  by (induction segs arbitrary: n) (auto simp: any_one_count_def)

lemma unat_UINT64_MAX: "unat UINT64_MAX = 2 ^ 64 - 1"
  by (simp add: UINT64_MAX_def)

lemma overflow_check:
  assumes "cs \<noteq> 0"
  shows "(c > UINT64_MAX div cs) = (2 ^ 64 \<le> unat c * unat cs)"
proof -
  have pos: "0 < unat cs" using assms by (simp add: unat_gt_0)
  have "(c > UINT64_MAX div cs) = ((2 ^ 64 - 1) div unat cs < unat c)"
    by (simp add: word_less_nat_alt unat_div unat_UINT64_MAX)
  also have "\<dots> = (\<not> unat c \<le> (2 ^ 64 - 1) div unat cs)" by auto
  also have "\<dots> = (\<not> unat c * unat cs \<le> 2 ^ 64 - 1)"
    using pos by (simp add: less_eq_div_iff_mult_less_eq)
  also have "\<dots> = (2 ^ 64 \<le> unat c * unat cs)" by auto
  finally show ?thesis .
qed

lemma unat_mult_fits:
  "unat (c :: uint64) * unat cs < 2 ^ 64 \<Longrightarrow> unat (c * cs) = unat c * unat cs"
  by (simp add: unat_mult_lem [THEN iffD1])

lemma combinations_loop_eq:
  assumes "cs \<noteq> 0"
  shows "combinations_loop n cs c =
           (if unat c * unat cs ^ n < 2 ^ 64 then Some (word_of_nat (unat c * unat cs ^ n)) else None)"
proof (induction n arbitrary: c)
  case 0
  have "unat c < 2 ^ 64" using unsigned_less [of c, where 'a = nat] by simp
  then show ?case by simp
next
  case (Suc n)
  have pos: "0 < unat cs" using assms by (simp add: unat_gt_0)
  show ?case
  proof (cases "2 ^ 64 \<le> unat c * unat cs")
    case True
    have "unat c * unat cs \<le> unat c * unat cs * unat cs ^ n"
      using pos by simp
    with True have "2 ^ 64 \<le> unat c * unat cs * unat cs ^ n" by (rule order_trans)
    then have "\<not> unat c * unat cs ^ Suc n < 2 ^ 64" by (simp add: mult.assoc)
    with True show ?thesis by (simp add: overflow_check [OF assms] del: power_Suc)
  next
    case False
    then have "unat (c * cs) = unat c * unat cs" by (simp add: unat_mult_fits)
    with False show ?thesis
      by (simp add: overflow_check [OF assms] Suc.IH mult.assoc)
  qed
qed

lemma combinations_loop_power64:
  "cs \<noteq> 0 \<Longrightarrow> combinations_loop n cs 1 = power64 (unat cs) n"
  by (simp add: combinations_loop_eq power64_def)

lemma calculate_pattern_combinations_eq:
  assumes "charset_size \<noteq> 0"
  shows "calculate_pattern_combinations segments charset_size L =
     (if L < int (fixed_len segments) then Some 0
      else if star_count segments = 0 then
        (if L = int (fixed_len segments)
         then power64 (unat charset_size) (any_one_count segments) else Some 0)
      else if star_count segments = 1 then
        power64 (unat charset_size) (any_one_count segments + nat (L - int (fixed_len segments)))
      else None)"
proof -
  have one: "power64 (unat charset_size) 0 = Some 1" by (simp add: power64_def)
  show ?thesis
    using assms one
    by (auto simp: calculate_pattern_combinations_def calculate_pattern_info_eq count_qmarks_eq
          combinations_loop_power64 Let_def nat_add_distrib)
qed

text \<open>
  C3 (amended). For every segment list, charset size \<open>C > 0\<close> and total length \<open>L\<close>,
  \<open>calculate_pattern_combinations\<close> returns 0 whenever \<open>L\<close> is less than the fixed
  length, whatever the number of stars; otherwise, with no star, \<open>C^q\<close> if \<open>L\<close> equals
  the fixed length (1 when there is no any-one) and 0 if not; with one star,
  \<open>C^(q + (L - fixed_length))\<close>; with two or more stars, no value. A power that does
  not fit in 64 bits gives no value.
\<close>

theorem pattern_combinations_by_cases:
  assumes "charset_size \<noteq> 0"
  shows "calculate_pattern_combinations segments charset_size L =
     (if L < int (fixed_len segments) then Some 0
      else if star_count segments = 0 then
        (if L = int (fixed_len segments)
         then power64 (unat charset_size) (any_one_count segments) else Some 0)
      else if star_count segments = 1 then
        power64 (unat charset_size) (any_one_count segments + nat (L - int (fixed_len segments)))
      else None)"
  using assms by (rule calculate_pattern_combinations_eq)

theorem pattern_combinations_by_cases_witness:
  "calculate_pattern_combinations [''a'', ''?'', ''*''] 3 4 = Some 27"
  using pattern_combinations_by_cases [of 3 "[''a'', ''?'', ''*'']" 4]
  by (simp add: fixed_len_def star_count_def any_one_count_def power64_def)

text \<open>
  C3 as stated fails: with two stars and a total length below the fixed length the
  function returns 0, not the undefined value.
\<close>

theorem two_stars_short_length_is_zero:
  "calculate_pattern_combinations [''*'', ''*'', ''a''] 2 0 = Some 0
     \<and> star_count [''*'', ''*'', ''a''] = 2"
  by (simp add: calculate_pattern_combinations_def calculate_pattern_info_def
        star_count_def Let_def)

section \<open>Properties of the index enumerator\<close>

lemma div_power_zero:
  assumes "(x::nat) div c = 0" "0 < c" "0 < k"
  shows "x div c ^ k = 0"
proof -
  from assms(1,2) have "x < c" by (simp add: div_eq_0_iff)
  also have "c = c ^ 1" by simp
  also have "c ^ 1 \<le> c ^ k" using assms(2,3) by (intro power_increasing) auto
  finally show ?thesis by simp
qed

lemma fill_loop_spec:
  shows "0 \<le> i \<Longrightarrow> i \<le> len \<Longrightarrow> length out = nat len
    \<Longrightarrow> (\<forall>p < nat (len - i). out ! p = charset ! 0) \<Longrightarrow> cs \<noteq> 0
    \<Longrightarrow> length (fill_loop i len x charset cs out) = nat len
      \<and> (\<forall>p < nat len. fill_loop i len x charset cs out ! p =
            (if p < nat (len - i)
             then charset ! ((unat x div unat cs ^ (nat (len - i) - 1 - p)) mod unat cs)
             else out ! p))"
proof (induction i len x charset cs out rule: fill_loop.induct)
  case (1 i len x charset cs out)
  have cs0: "cs \<noteq> 0" by (rule "1.prems"(5))
  have pos: "0 < unat cs" using cs0 by (simp add: unat_gt_0)
  show ?case
  proof (cases "i < len")
    case False
    then have res: "fill_loop i len x charset cs out = out"
      by (subst fill_loop.simps) simp
    from False "1.prems" have "i = len" by simp
    then show ?thesis unfolding res using "1.prems"(3) by simp
  next
    case True
    define n where "n = nat (len - i)"
    define q where "q = nat (len - 1 - i)"
    define out' where "out' = out[q := charset ! unat (x mod cs)]"
    define x' where "x' = x div cs"
    have n: "n = Suc q" "q < nat len" using True "1.prems"(1) by (auto simp: n_def q_def)
    have ux': "unat x' = unat x div unat cs" by (simp add: x'_def unat_div)
    have len': "length out' = nat len" using "1.prems"(3) by (simp add: out'_def)
    have out'_q: "out' ! q = charset ! ((unat x div unat cs ^ 0) mod unat cs)"
      using n(2) "1.prems"(3) by (simp add: out'_def unat_mod)
    have out'_other: "\<And>p. p \<noteq> q \<Longrightarrow> out' ! p = out ! p" by (simp add: out'_def)
    show ?thesis
    proof (cases "x' = 0 \<and> i < len - 1")
      case stop: True
      have res: "fill_loop i len x charset cs out = out'"
        using True stop by (subst fill_loop.simps) (simp add: Let_def out'_def x'_def q_def)
      have z: "\<And>k. 0 < k \<Longrightarrow> unat x div unat cs ^ k = 0"
        using stop ux' pos by (intro div_power_zero) auto
      show ?thesis
        unfolding res n_def [symmetric]
      proof (intro conjI allI impI)
        show "length out' = nat len" by (rule len')
      next
        fix p assume p: "p < nat len"
        show "out' ! p = (if p < n then charset ! ((unat x div unat cs ^ (n - 1 - p)) mod unat cs)
                          else out ! p)"
        proof (cases "p = q")
          case True
          then show ?thesis using out'_q n by simp
        next
          case False
          show ?thesis
          proof (cases "p < q")
            case True
            then have "0 < n - 1 - p" using n by simp
            then have "unat x div unat cs ^ (n - 1 - p) = 0" by (rule z)
            moreover have "out ! p = charset ! 0"
              using "1.prems"(4) True n by (simp add: n_def)
            ultimately show ?thesis using True n out'_other [OF False] by simp
          next
            case ge: False
            with False n have "\<not> p < n" by simp
            then show ?thesis using out'_other [OF False] by simp
          qed
        qed
      qed
    next
      case go: False
      have res: "fill_loop i len x charset cs out = fill_loop (i + 1) len x' charset cs out'"
        using True go by (subst fill_loop.simps) (auto simp: Let_def out'_def x'_def q_def)
      have n': "nat (len - (i + 1)) = q" using True by (simp add: q_def)
      have pre: "\<forall>p < nat (len - (i + 1)). out' ! p = charset ! 0"
        using "1.prems"(4) n by (auto simp: n' out'_other n_def)
      have ih: "length (fill_loop (i + 1) len x' charset cs out') = nat len
        \<and> (\<forall>p < nat len. fill_loop (i + 1) len x' charset cs out' ! p =
            (if p < q then charset ! ((unat x' div unat cs ^ (q - 1 - p)) mod unat cs)
             else out' ! p))"
        using "1.IH" [OF True refl refl refl, of ] go True "1.prems"(1,2) len' pre cs0
        unfolding out'_def [symmetric] x'_def [symmetric] q_def [symmetric] n'
        by (simp add: out'_def x'_def q_def)
      show ?thesis
        unfolding res n_def [symmetric]
      proof (intro conjI allI impI)
        show "length (fill_loop (i + 1) len x' charset cs out') = nat len" using ih by simp
      next
        fix p assume p: "p < nat len"
        show "fill_loop (i + 1) len x' charset cs out' ! p =
           (if p < n then charset ! ((unat x div unat cs ^ (n - 1 - p)) mod unat cs) else out ! p)"
        proof (cases "p < q")
          case True
          have "n - 1 - p = Suc (q - 1 - p)" using True n by simp
          then have "unat cs ^ (n - 1 - p) = unat cs * unat cs ^ (q - 1 - p)" by simp
          then have e: "unat x div unat cs ^ (n - 1 - p) = unat x' div unat cs ^ (q - 1 - p)"
            by (simp add: ux' div_mult2_eq)
          have lt: "p < n" using True n by simp
          show ?thesis unfolding if_P [OF lt] e using ih p True by simp
        next
          case False
          then show ?thesis using ih p n out'_q out'_other [of p] by (cases "p = q") auto
        qed
      qed
    qed
  qed
qed

lemma candidate_length [simp]: "length (candidate charset L x) = L"
  by (simp add: candidate_def)

lemma unat_charsetSize:
  "length charset < 2 ^ 64 \<Longrightarrow> unat (word_of_nat (length charset) :: uint64) = length charset"
  by (simp add: unat_of_nat)

lemma fill_loop_candidate:
  assumes "cs \<noteq> 0" "unat cs = length charset"
  shows "fill_loop 0 (int L) x charset cs (replicate L (charset ! 0)) = candidate charset L (unat x)"
proof -
  let ?r = "fill_loop 0 (int L) x charset cs (replicate L (charset ! 0))"
  have spec: "length ?r = nat (int L)
      \<and> (\<forall>p < nat (int L). ?r ! p =
            (if p < nat (int L - 0)
             then charset ! ((unat x div unat cs ^ (nat (int L - 0) - 1 - p)) mod unat cs)
             else replicate L (charset ! 0) ! p))"
    using assms(1) by (intro fill_loop_spec) auto
  show ?thesis
  proof (rule nth_equalityI)
    show "length ?r = length (candidate charset L (unat x))" using spec by simp
  next
    fix p assume "p < length ?r"
    then have p: "p < L" using spec by simp
    with spec have "?r ! p = charset ! ((unat x div unat cs ^ (L - 1 - p)) mod unat cs)"
      by simp
    then show "?r ! p = candidate charset L (unat x) ! p"
      using p by (simp add: candidate_def assms(2))
  qed
qed

lemma block_offset_Suc: "1 \<le> L \<Longrightarrow> block_offset c (Suc L) = block_offset c L + c ^ L"
  by (simp add: block_offset_def)

lemma block_offset_1 [simp]: "block_offset c (Suc 0) = 0"
  by (simp add: block_offset_def)

lemma block_offset_mono: "L \<le> L' \<Longrightarrow> block_offset c L \<le> block_offset c L'"
  unfolding block_offset_def by (intro sum_mono2) auto

lemma power_le_block_offset:
  assumes "1 \<le> l" "l < L"
  shows "c ^ l \<le> block_offset c L"
proof -
  have "c ^ l \<le> block_offset c l + c ^ l" by simp
  also have "\<dots> = block_offset c (Suc l)" using assms(1) by (simp add: block_offset_Suc)
  also have "\<dots> \<le> block_offset c L" using assms(2) by (intro block_offset_mono) simp
  finally show ?thesis .
qed

text \<open>The outer loop, started at length \<open>len\<close> with the offset of that length already subtracted.\<close>

lemma getPasswordByIndex_loop_spec:
  assumes cs: "cs \<noteq> 0" "unat cs = length charset"
    and fits: "block_offset (length charset) (Suc Lmax) < 2 ^ 64"
  shows "1 \<le> len \<Longrightarrow> len \<le> Lmax \<Longrightarrow> unat pw = length charset ^ (len - 1)
    \<Longrightarrow> block_offset (length charset) len + unat cur < block_offset (length charset) (Suc Lmax)
    \<Longrightarrow> \<exists>L x. len \<le> L \<and> L \<le> Lmax
          \<and> block_offset (length charset) len + unat cur = block_offset (length charset) L + x
          \<and> x < length charset ^ L
          \<and> getPasswordByIndex_loop (int len) (int Lmax) cur pw charset cs
               = Some (candidate charset L x)"
proof (induction "Lmax - len" arbitrary: len cur pw)
  case 0
  then have eq: "len = Lmax" by simp
  let ?C = "length charset"
  define pw' where "pw' = (if int len = 1 then cs else pw * cs)"
  have fitl: "?C ^ len < 2 ^ 64"
    using power_le_block_offset [of len "Suc Lmax" ?C] fits "0.prems"(1,2) by simp
  have upw': "unat pw' = ?C ^ len"
  proof (cases "len = 1")
    case True
    then show ?thesis by (simp add: pw'_def cs)
  next
    case False
    with "0.prems"(1) obtain k where k: "len = Suc k" "1 \<le> k" by (cases len) auto
    have "unat pw * unat cs = ?C ^ len" using "0.prems"(3) k by (simp add: cs)
    with fitl have "unat (pw * cs) = ?C ^ len"
      using unat_mult_lem [of pw cs] by simp
    with False show ?thesis by (simp add: pw'_def)
  qed
  have noov: "\<not> (int len \<noteq> 1 \<and> pw > UINT64_MAX div cs)"
  proof (cases "len = 1")
    case True then show ?thesis by simp
  next
    case False
    with "0.prems"(1) obtain k where k: "len = Suc k" by (cases len) auto
    have "unat pw * unat cs = ?C ^ len" using "0.prems"(3) k by (simp add: cs)
    with fitl have "\<not> 2 ^ 64 \<le> unat pw * unat cs" by simp
    then show ?thesis by (simp add: overflow_check [OF cs(1)])
  qed
  have lt: "unat cur < ?C ^ len"
    using "0.prems"(1,4) eq by (simp add: block_offset_Suc)
  then have "cur < pw'" by (simp add: word_less_nat_alt upw')
  then have "getPasswordByIndex_loop (int len) (int Lmax) cur pw charset cs
      = Some (fill_loop 0 (int len) cur charset cs (replicate len (charset ! 0)))"
    using noov "0.prems"(2)
    by (subst getPasswordByIndex_loop.simps) (simp add: Let_def pw'_def)
  also have "\<dots> = Some (candidate charset len (unat cur))"
    by (simp add: fill_loop_candidate [OF cs])
  finally show ?case using lt "0.prems"(2) by blast
next
  case (Suc d)
  let ?C = "length charset"
  define pw' where "pw' = (if int len = 1 then cs else pw * cs)"
  have lenlt: "len < Lmax" using Suc.hyps(2) by simp
  have fitl: "?C ^ len < 2 ^ 64"
    using power_le_block_offset [of len "Suc Lmax" ?C] fits Suc.prems(1,2) by simp
  have upw': "unat pw' = ?C ^ len"
  proof (cases "len = 1")
    case True
    then show ?thesis by (simp add: pw'_def cs)
  next
    case False
    with Suc.prems(1) obtain k where k: "len = Suc k" "1 \<le> k" by (cases len) auto
    have "unat pw * unat cs = ?C ^ len" using Suc.prems(3) k by (simp add: cs)
    with fitl have "unat (pw * cs) = ?C ^ len"
      using unat_mult_lem [of pw cs] by simp
    with False show ?thesis by (simp add: pw'_def)
  qed
  have noov: "\<not> (int len \<noteq> 1 \<and> pw > UINT64_MAX div cs)"
  proof (cases "len = 1")
    case True then show ?thesis by simp
  next
    case False
    with Suc.prems(1) obtain k where k: "len = Suc k" by (cases len) auto
    have "unat pw * unat cs = ?C ^ len" using Suc.prems(3) k by (simp add: cs)
    with fitl have "\<not> 2 ^ 64 \<le> unat pw * unat cs" by simp
    then show ?thesis by (simp add: overflow_check [OF cs(1)])
  qed
  show ?case
  proof (cases "unat cur < ?C ^ len")
    case True
    then have "cur < pw'" by (simp add: word_less_nat_alt upw')
    then have "getPasswordByIndex_loop (int len) (int Lmax) cur pw charset cs
        = Some (fill_loop 0 (int len) cur charset cs (replicate len (charset ! 0)))"
      using noov Suc.prems(2)
      by (subst getPasswordByIndex_loop.simps) (simp add: Let_def pw'_def)
    also have "\<dots> = Some (candidate charset len (unat cur))"
      by (simp add: fill_loop_candidate [OF cs])
    finally show ?thesis using True Suc.prems(2) by blast
  next
    case False
    then have ge: "\<not> cur < pw'" by (simp add: word_less_nat_alt upw')
    then have le: "pw' \<le> cur" by simp
    have usub: "unat (cur - pw') = unat cur - ?C ^ len"
      using le by (simp add: unat_sub upw')
    have step: "getPasswordByIndex_loop (int len) (int Lmax) cur pw charset cs
        = getPasswordByIndex_loop (int (Suc len)) (int Lmax) (cur - pw') pw' charset cs"
      using noov ge Suc.prems(2)
      by (subst getPasswordByIndex_loop.simps) (auto simp: Let_def pw'_def add.commute)
    have off: "block_offset ?C (Suc len) + unat (cur - pw') = block_offset ?C len + unat cur"
      using False Suc.prems(1) by (simp add: usub block_offset_Suc)
    have "\<exists>L x. Suc len \<le> L \<and> L \<le> Lmax
          \<and> block_offset ?C (Suc len) + unat (cur - pw') = block_offset ?C L + x
          \<and> x < ?C ^ L
          \<and> getPasswordByIndex_loop (int (Suc len)) (int Lmax) (cur - pw') pw' charset cs
               = Some (candidate charset L x)"
    proof (rule Suc.hyps(1))
      show "d = Lmax - Suc len" using Suc.hyps(2) by simp
      show "1 \<le> Suc len" by simp
      show "Suc len \<le> Lmax" using lenlt by simp
      show "unat pw' = ?C ^ (Suc len - 1)" using upw' by simp
      show "block_offset ?C (Suc len) + unat (cur - pw') < block_offset ?C (Suc Lmax)"
        using off Suc.prems(4) by simp
    qed
    then obtain L x where "Suc len \<le> L" "L \<le> Lmax"
        "block_offset ?C (Suc len) + unat (cur - pw') = block_offset ?C L + x"
        "x < ?C ^ L"
        "getPasswordByIndex_loop (int (Suc len)) (int Lmax) (cur - pw') pw' charset cs
               = Some (candidate charset L x)"
      by blast
    then show ?thesis using off step by (intro exI [of _ L] exI [of _ x]) simp
  qed
qed

lemma getPasswordByIndex_spec:
  assumes "charset \<noteq> []" "length charset < 2 ^ 64" "1 \<le> Lmax"
    and "block_offset (length charset) (Suc Lmax) < 2 ^ 64"
    and "unat i < block_offset (length charset) (Suc Lmax)"
  shows "\<exists>L x. 1 \<le> L \<and> L \<le> Lmax \<and> unat i = block_offset (length charset) L + x
          \<and> x < length charset ^ L
          \<and> getPasswordByIndex i charset (int Lmax) = Some (candidate charset L x)"
proof -
  let ?cs = "word_of_nat (length charset) :: uint64"
  have u: "unat ?cs = length charset" using assms(2) by (rule unat_charsetSize)
  with assms(1) have cs0: "?cs \<noteq> 0" by (metis length_0_conv unat_0)
  have "\<exists>L x. 1 \<le> L \<and> L \<le> Lmax
          \<and> block_offset (length charset) 1 + unat i = block_offset (length charset) L + x
          \<and> x < length charset ^ L
          \<and> getPasswordByIndex_loop (int 1) (int Lmax) i 1 charset ?cs
               = Some (candidate charset L x)"
    using assms(3,5) by (intro getPasswordByIndex_loop_spec [OF cs0 u assms(4)]) simp_all
  then show ?thesis using cs0 by (simp add: getPasswordByIndex_def Let_def)
qed

lemma block_decomposition_unique:
  assumes "block_offset c L + x = block_offset c L' + x'" "x < c ^ L" "x' < c ^ L'"
    "1 \<le> L" "1 \<le> L'"
  shows "L = L' \<and> x = x'"
proof -
  have less: "False" if "l < l'" "1 \<le> l" "block_offset c l + y = block_offset c l' + y'" "y < c ^ l"
    for l l' y y'
  proof -
    have "block_offset c l + y < block_offset c l + c ^ l" using that(4) by simp
    also have "\<dots> = block_offset c (Suc l)" using that(2) by (simp add: block_offset_Suc)
    also have "\<dots> \<le> block_offset c l'" using that(1) by (intro block_offset_mono) simp
    also have "\<dots> \<le> block_offset c l' + y'" by simp
    finally show False using that(3) by simp
  qed
  have "L = L'"
  proof (rule ccontr)
    assume "L \<noteq> L'"
    then consider "L < L'" | "L' < L" by linarith
    then show False
    proof cases
      case 1
      then show False using less [of L L' x x'] assms by simp
    next
      case 2
      then show False using less [of L' L x' x] assms by simp
    qed
  qed
  with assms(1) show ?thesis by simp
qed

lemma digits_determine:
  assumes "0 < (c::nat)" "\<forall>j < L. (x div c ^ j) mod c = (y div c ^ j) mod c"
  shows "x mod c ^ L = y mod c ^ L"
  using assms(2)
proof (induction L)
  case 0
  then show ?case by simp
next
  case (Suc L)
  then have ih: "x mod c ^ L = y mod c ^ L" and d: "(x div c ^ L) mod c = (y div c ^ L) mod c"
    by auto
  have "x mod (c ^ L * c) = c ^ L * (x div c ^ L mod c) + x mod c ^ L"
    by (rule mod_mult2_eq)
  moreover have "y mod (c ^ L * c) = c ^ L * (y div c ^ L mod c) + y mod c ^ L"
    by (rule mod_mult2_eq)
  ultimately show ?case using ih d by (simp add: mult.commute)
qed

lemma digits_exist:
  assumes "0 < (c::nat)" "\<forall>j < L. D j < c"
  shows "\<exists>x < c ^ L. \<forall>j < L. (x div c ^ j) mod c = D j"
  using assms(2)
proof (induction L)
  case 0
  then show ?case by simp
next
  case (Suc L)
  then obtain x where x: "x < c ^ L" "\<forall>j < L. (x div c ^ j) mod c = D j" by auto
  from Suc.prems have dl: "D L < c" by simp
  let ?y = "x + c ^ L * D L"
  have bound: "?y < c ^ Suc L"
  proof -
    have "?y < c ^ L + c ^ L * D L" using x(1) by simp
    also have "\<dots> = c ^ L * Suc (D L)" by simp
    also have "\<dots> \<le> c ^ L * c" using dl by (intro mult_le_mono2) simp
    finally show ?thesis by (simp add: mult.commute)
  qed
  have "(?y div c ^ j) mod c = D j" if "j < Suc L" for j
  proof (cases "j = L")
    case True
    have "?y div c ^ L = D L" using x(1) assms(1) by simp
    with dl True show ?thesis by simp
  next
    case False
    with that have j: "j < L" by simp
    then obtain k where k: "L = j + Suc k" by (metis less_iff_Suc_add add_Suc_right)
    define M where "M = c * (c ^ k * D L)"
    have "c ^ L * D L = c ^ j * M" by (simp add: k power_add M_def)
    then have "?y div c ^ j = (x + c ^ j * M) div c ^ j" by (simp only:)
    also have "\<dots> = x div c ^ j + M" using assms(1) by simp
    finally have "?y div c ^ j = x div c ^ j + c * (c ^ k * D L)" by (simp add: M_def)
    then have "(?y div c ^ j) mod c = (x div c ^ j) mod c" by simp
    with x(2) j show ?thesis by simp
  qed
  with bound show ?case by blast
qed

lemma candidate_nth:
  "p < L \<Longrightarrow> candidate charset L x ! p
       = charset ! ((x div length charset ^ (L - 1 - p)) mod length charset)"
  by (simp add: candidate_def)

lemma candidate_set:
  assumes "charset \<noteq> []"
  shows "set (candidate charset L x) \<subseteq> set charset"
proof -
  have "0 < length charset" using assms by simp
  then show ?thesis by (auto simp: candidate_def)
qed

lemma candidate_inj:
  assumes "distinct charset" "charset \<noteq> []"
    "candidate charset L x = candidate charset L y" "x < length charset ^ L" "y < length charset ^ L"
  shows "x = y"
proof -
  let ?c = "length charset"
  have c: "0 < ?c" using assms(2) by simp
  have "(x div ?c ^ j) mod ?c = (y div ?c ^ j) mod ?c" if "j < L" for j
  proof -
    let ?p = "L - 1 - j"
    have p: "?p < L" "L - 1 - ?p = j" using that by auto
    have "candidate charset L x ! ?p = candidate charset L y ! ?p" using assms(3) by simp
    then have "charset ! ((x div ?c ^ j) mod ?c) = charset ! ((y div ?c ^ j) mod ?c)"
      using p by (simp add: candidate_nth)
    then show ?thesis using assms(1) c by (simp add: nth_eq_iff_index_eq)
  qed
  then have "x mod ?c ^ L = y mod ?c ^ L" using c by (intro digits_determine) auto
  then show ?thesis using assms(4,5) by simp
qed

lemma candidate_surj:
  assumes "charset \<noteq> []" "set s \<subseteq> set charset"
  shows "\<exists>x < length charset ^ length s. candidate charset (length s) x = s"
proof -
  let ?c = "length charset" and ?L = "length s"
  have c: "0 < ?c" using assms(1) by simp
  have "\<forall>p. \<exists>d. p < ?L \<longrightarrow> d < ?c \<and> charset ! d = s ! p"
    using assms(2) by (metis in_set_conv_nth nth_mem subsetD)
  then obtain E where E: "\<And>p. p < ?L \<Longrightarrow> E p < ?c \<and> charset ! E p = s ! p"
    by metis
  have "\<forall>j < ?L. E (?L - 1 - j) < ?c" using E by simp
  from digits_exist [OF c this] obtain x where
    x: "x < ?c ^ ?L" "\<forall>j < ?L. (x div ?c ^ j) mod ?c = E (?L - 1 - j)" by blast
  have "candidate charset ?L x = s"
  proof (rule nth_equalityI)
    show "length (candidate charset ?L x) = length s" by simp
  next
    fix p assume "p < length (candidate charset ?L x)"
    then have p: "p < ?L" by simp
    then have "(x div ?c ^ (?L - 1 - p)) mod ?c = E p" using x(2) by simp
    then show "candidate charset ?L x ! p = s ! p" using p E by (simp add: candidate_nth)
  qed
  with x(1) show ?thesis by blast
qed

text \<open>
  C1 (amended). For every non-empty charset of size \<open>C\<close>, every \<open>Lmax \<ge> 1\<close> whose
  candidate count \<open>C + C^2 + \<dots> + C^Lmax\<close> fits in 64 bits, and every index \<open>i\<close>
  below that count, \<open>getPasswordByIndex\<close> succeeds and returns the candidate at global
  position \<open>i\<close> of the length-ordered enumeration: \<open>i\<close> is the offset of a length
  \<open>L \<le> Lmax\<close> plus a local index \<open>x < C^L\<close>, the result has length \<open>L\<close>, and its
  character at position \<open>L - 1 - j\<close> is \<open>charset[(x / C^j) mod C]\<close>. When the characters
  of the charset are pairwise distinct, the mapping is a bijection from the indices below
  the count onto the strings of lengths \<open>1..Lmax\<close> over the charset.
\<close>

theorem getPasswordByIndex_enumerates:
  assumes "charset \<noteq> []" and "length charset < 2 ^ 64" and "1 \<le> Lmax"
    and "block_offset (length charset) (Suc Lmax) < 2 ^ 64"
  shows "(unat i < block_offset (length charset) (Suc Lmax) \<longrightarrow>
           (\<exists>L x pw. 1 \<le> L \<and> L \<le> Lmax
              \<and> unat i = block_offset (length charset) L + x \<and> x < length charset ^ L
              \<and> getPasswordByIndex i charset (int Lmax) = Some pw
              \<and> pw = candidate charset L x \<and> length pw = L
              \<and> (\<forall>j < L. pw ! (L - 1 - j)
                     = charset ! ((x div length charset ^ j) mod length charset))))
    \<and> (distinct charset \<longrightarrow>
          bij_betw (\<lambda>n. the (getPasswordByIndex (word_of_nat n) charset (int Lmax)))
            {..<block_offset (length charset) (Suc Lmax)}
            {s. 1 \<le> length s \<and> length s \<le> Lmax \<and> set s \<subseteq> set charset})"
proof (intro conjI impI)
  let ?c = "length charset"
  let ?S = "block_offset ?c (Suc Lmax)"
  assume "unat i < ?S"
  from getPasswordByIndex_spec [OF assms(1,2,3,4) this]
  obtain L x where Lx: "1 \<le> L" "L \<le> Lmax" "unat i = block_offset ?c L + x" "x < ?c ^ L"
    "getPasswordByIndex i charset (int Lmax) = Some (candidate charset L x)" by blast
  have "\<forall>j < L. candidate charset L x ! (L - 1 - j) = charset ! ((x div ?c ^ j) mod ?c)"
  proof (intro allI impI)
    fix j assume "j < L"
    then have "L - 1 - j < L" "L - 1 - (L - 1 - j) = j" by auto
    then show "candidate charset L x ! (L - 1 - j) = charset ! ((x div ?c ^ j) mod ?c)"
      by (simp add: candidate_nth)
  qed
  with Lx show "\<exists>L x pw. 1 \<le> L \<and> L \<le> Lmax
              \<and> unat i = block_offset ?c L + x \<and> x < ?c ^ L
              \<and> getPasswordByIndex i charset (int Lmax) = Some pw
              \<and> pw = candidate charset L x \<and> length pw = L
              \<and> (\<forall>j < L. pw ! (L - 1 - j) = charset ! ((x div ?c ^ j) mod ?c))"
    by (intro exI [of _ L] exI [of _ x] exI [of _ "candidate charset L x"]) simp
next
  let ?c = "length charset"
  let ?S = "block_offset ?c (Suc Lmax)"
  let ?G = "\<lambda>n. the (getPasswordByIndex (word_of_nat n) charset (int Lmax))"
  assume dist: "distinct charset"
  have G: "\<exists>L x. 1 \<le> L \<and> L \<le> Lmax \<and> n = block_offset ?c L + x \<and> x < ?c ^ L
             \<and> ?G n = candidate charset L x" if "n < ?S" for n
  proof -
    have u: "unat (word_of_nat n :: uint64) = n"
      using that assms(4) by (simp add: unat_of_nat)
    with that have "unat (word_of_nat n :: uint64) < ?S" by simp
    from getPasswordByIndex_spec [OF assms(1,2,3,4) this] show ?thesis
      unfolding u by (metis option.sel)
  qed
  show "bij_betw ?G {..<?S} {s. 1 \<le> length s \<and> length s \<le> Lmax \<and> set s \<subseteq> set charset}"
    unfolding bij_betw_def
  proof (intro conjI)
    show "inj_on ?G {..<?S}"
    proof (rule inj_onI)
      fix n m assume "n \<in> {..<?S}" "m \<in> {..<?S}" and eq: "?G n = ?G m"
      then have n: "n < ?S" and m: "m < ?S" by auto
      from G [OF n] obtain L x where Lx: "1 \<le> L" "n = block_offset ?c L + x" "x < ?c ^ L"
        "?G n = candidate charset L x" by blast
      from G [OF m] obtain L' y where Ly: "1 \<le> L'" "m = block_offset ?c L' + y" "y < ?c ^ L'"
        "?G m = candidate charset L' y" by blast
      from eq Lx(4) Ly(4) have ceq: "candidate charset L x = candidate charset L' y" by simp
      then have "length (candidate charset L x) = length (candidate charset L' y)" by simp
      then have L: "L = L'" by simp
      with ceq Lx(3) Ly(3) dist assms(1) have "x = y" by (auto dest: candidate_inj)
      with L Lx(2) Ly(2) show "n = m" by simp
    qed
  next
    show "?G ` {..<?S} = {s. 1 \<le> length s \<and> length s \<le> Lmax \<and> set s \<subseteq> set charset}"
    proof (intro set_eqI iffI)
      fix s assume "s \<in> ?G ` {..<?S}"
      then obtain n where n: "n < ?S" "s = ?G n" by auto
      from G [OF n(1)] obtain L x where "1 \<le> L" "L \<le> Lmax" "?G n = candidate charset L x"
        by blast
      with n(2) candidate_set [OF assms(1), of L x]
      show "s \<in> {s. 1 \<le> length s \<and> length s \<le> Lmax \<and> set s \<subseteq> set charset}" by simp
    next
      fix s assume "s \<in> {s. 1 \<le> length s \<and> length s \<le> Lmax \<and> set s \<subseteq> set charset}"
      then have s: "1 \<le> length s" "length s \<le> Lmax" "set s \<subseteq> set charset" by auto
      from candidate_surj [OF assms(1) s(3)] obtain x where
        x: "x < ?c ^ length s" "candidate charset (length s) x = s" by blast
      let ?n = "block_offset ?c (length s) + x"
      have "?n < block_offset ?c (Suc (length s))" using x(1) s(1) by (simp add: block_offset_Suc)
      also have "\<dots> \<le> ?S" using s(2) by (intro block_offset_mono) simp
      finally have n: "?n < ?S" .
      from G [OF n] obtain L y where Ly: "1 \<le> L" "?n = block_offset ?c L + y" "y < ?c ^ L"
        "?G ?n = candidate charset L y" by blast
      from block_decomposition_unique [OF Ly(2) x(1) Ly(3) s(1) Ly(1)]
      have "L = length s" "y = x" by auto
      with Ly(4) x(2) have "?G ?n = s" by simp
      with n show "s \<in> ?G ` {..<?S}" by (metis (no_types, lifting) image_eqI lessThan_iff)
    qed
  qed
qed

lemma block_offset_ab: "block_offset (length ''ab'') (Suc 2) = 6"
  by (simp add: block_offset_def eval_nat_numeral)

theorem getPasswordByIndex_enumerates_witness:
  "(\<exists>L x pw. 1 \<le> L \<and> L \<le> 2
       \<and> unat (3 :: uint64) = block_offset (length ''ab'') L + x \<and> x < length ''ab'' ^ L
       \<and> getPasswordByIndex 3 ''ab'' (int 2) = Some pw
       \<and> pw = candidate ''ab'' L x \<and> length pw = L
       \<and> (\<forall>j < L. pw ! (L - 1 - j) = ''ab'' ! ((x div length ''ab'' ^ j) mod length ''ab'')))
   \<and> bij_betw (\<lambda>n. the (getPasswordByIndex (word_of_nat n) ''ab'' (int 2)))
        {..<block_offset (length ''ab'') (Suc 2)}
        {s. 1 \<le> length s \<and> length s \<le> 2 \<and> set s \<subseteq> set ''ab''}"
proof -
  have a: "''ab'' \<noteq> []" "length ''ab'' < 2 ^ 64" "1 \<le> (2::nat)" by simp_all
  have b: "block_offset (length ''ab'') (Suc 2) < 2 ^ 64" unfolding block_offset_ab by simp
  have c: "unat (3 :: uint64) < block_offset (length ''ab'') (Suc 2)"
    unfolding block_offset_ab by simp
  have d: "distinct ''ab''" by simp
  from getPasswordByIndex_enumerates [OF a b, of 3] c d show ?thesis by blast
qed

lemma getPasswordByIndex_aa:
  "getPasswordByIndex 0 ''aa'' 1 = Some ''a''" "getPasswordByIndex 1 ''aa'' 1 = Some ''a''"
  by (simp_all add: getPasswordByIndex_def getPasswordByIndex_loop.simps fill_loop.simps
        UINT64_MAX_def)

text \<open>
  C1 as stated fails for a charset that repeats a character: with the charset \<open>''aa''\<close>
  the indices 0 and 1, both below the count 2, give the same string.
\<close>

theorem repeated_character_not_injective:
  "unat (0 :: uint64) < block_offset (length ''aa'') (Suc 1)
   \<and> unat (1 :: uint64) < block_offset (length ''aa'') (Suc 1)
   \<and> getPasswordByIndex 0 ''aa'' 1 = getPasswordByIndex 1 ''aa'' 1
   \<and> (0 :: uint64) \<noteq> 1"
  by (simp add: getPasswordByIndex_aa block_offset_def)

section \<open>Properties of the pattern enumerator\<close>

lemma block_offset_mono_base: "c \<le> d \<Longrightarrow> block_offset c L \<le> block_offset d L"
  unfolding block_offset_def by (intro sum_mono power_mono) auto

lemma geometric_block: "k * block_offset (Suc k) (Suc W) + Suc k = Suc k ^ Suc W"
proof (induction W)
  case 0
  then show ?case by (simp add: block_offset_def)
next
  case (Suc W)
  have "k * block_offset (Suc k) (Suc (Suc W)) + Suc k
          = (k * block_offset (Suc k) (Suc W) + Suc k) + k * Suc k ^ Suc W"
    by (simp add: block_offset_Suc algebra_simps)
  also have "\<dots> = Suc k ^ Suc W + k * Suc k ^ Suc W" by (simp only: Suc.IH)
  also have "\<dots> = Suc k * Suc k ^ Suc W" by simp
  finally show ?case by simp
qed

lemma table_rows: "list_all row_ok [2..<64]"
  by (simp add: row_ok_def root_table_def)

lemma table_row:
  assumes "2 \<le> W" "W < 64"
  shows "row_ok W"
proof -
  have "W \<in> set [2..<64]" using assms by (simp only: set_upt atLeastLessThan_iff)
  with table_rows show ?thesis unfolding list_all_iff by blast
qed

lemma sum_fits:
  assumes "2 \<le> C" "1 \<le> W" "C ^ W < (2::nat) ^ 64"
  shows "block_offset C (Suc W) < 2 ^ 64"
proof -
  have "(2::nat) ^ W \<le> C ^ W" using assms(1) by (intro power_mono) auto
  from this assms(3) have "(2::nat) ^ W < 2 ^ 64" by (rule le_less_trans)
  then have W64: "W < 64" by (rule power_less_imp_less_exp [rotated]) simp
  show ?thesis
  proof (cases "W = 1")
    case True
    with assms(3) show ?thesis by (simp add: block_offset_def)
  next
    case False
    with assms(2) have W2: "2 \<le> W" by simp
    define c where "c = root_table ! (W - 2)"
    from table_row [OF W2 W64] have c: "2 \<le> c" "2 ^ 64 \<le> (c + 1) ^ W"
      "c ^ Suc W < (c - 1) * 2 ^ 64 + c"
      unfolding row_ok_def Let_def c_def by blast+
    have Cc: "C \<le> c"
    proof (rule ccontr)
      assume "\<not> C \<le> c"
      then have "c + 1 \<le> C" by simp
      then have "(c + 1) ^ W \<le> C ^ W" by (rule power_mono) simp
      with c(2) assms(3) show False by simp
    qed
    from c(1) obtain k where k: "c = Suc k" "1 \<le> k" by (cases c) auto
    have geo: "k * block_offset c (Suc W) + c = c ^ Suc W"
      unfolding k by (rule geometric_block)
    have "c - 1 = k" using k by simp
    with c(3) have "c ^ Suc W < k * 2 ^ 64 + c" by (simp only:)
    with geo have "k * block_offset c (Suc W) + c < k * 2 ^ 64 + c" by (simp only:)
    then have "k * block_offset c (Suc W) < k * 2 ^ 64" by (simp only: add_less_cancel_right)
    then have "block_offset c (Suc W) < 2 ^ 64" by (simp only: mult_less_cancel1)
    with block_offset_mono_base [OF Cc, of "Suc W"] show ?thesis by simp
  qed
qed

lemma sub_check:
  "(off > UINT64_MAX - this) = (2 ^ 64 \<le> unat off + unat this)"
proof -
  have le: "this \<le> UINT64_MAX" by (simp add: UINT64_MAX_def word_le_nat_alt)
    (use unsigned_less [of this, where 'a = nat] in simp)
  have "unat (UINT64_MAX - this) = 2 ^ 64 - 1 - unat this"
    using le by (simp add: unat_sub unat_UINT64_MAX)
  moreover have "unat this < 2 ^ 64" using unsigned_less [of this, where 'a = nat] by simp
  ultimately show ?thesis by (auto simp: word_less_nat_alt)
qed

lemma unat_add_fits:
  "unat (a :: uint64) + unat b < 2 ^ 64 \<Longrightarrow> unat (a + b) = unat a + unat b"
  by (simp add: unat_add_lem [THEN iffD1])

lemma pattern_offset_loop_spec:
  assumes cs: "cs \<noteq> 0" "unat cs = C"
    and fits: "block_offset C W < 2 ^ 64"
  shows "1 \<le> len \<Longrightarrow> len \<le> W \<Longrightarrow> unat pw = C ^ (len - 1) \<Longrightarrow> unat off = block_offset C len
    \<Longrightarrow> \<exists>r. pattern_offset_loop (int len) (int W) pw off cs = Some r \<and> unat r = block_offset C W"
proof (induction "W - len" arbitrary: len pw off)
  case 0
  then have "len = W" by simp
  then show ?case using "0.prems"(4) by (subst pattern_offset_loop.simps) simp
next
  case (Suc d)
  then have lt: "len < W" by simp
  define pw' where "pw' = (if int len = 1 then cs else pw * cs)"
  have fitl: "C ^ len < 2 ^ 64"
    using power_le_block_offset [of len W C] fits Suc.prems(1) lt by simp
  have prod: "len \<noteq> 1 \<Longrightarrow> unat pw * unat cs = C ^ len"
  proof -
    assume "len \<noteq> 1"
    with Suc.prems(1) obtain k where "len = Suc k" by (cases len) auto
    then show ?thesis using Suc.prems(3) by (simp add: cs)
  qed
  have upw': "unat pw' = C ^ len"
  proof (cases "len = 1")
    case True
    then show ?thesis by (simp add: pw'_def cs)
  next
    case False
    with prod fitl have "unat (pw * cs) = C ^ len" using unat_mult_lem [of pw cs] by simp
    with False show ?thesis by (simp add: pw'_def)
  qed
  have noov: "\<not> (int len \<noteq> 1 \<and> pw > UINT64_MAX div cs)"
  proof (cases "len = 1")
    case True then show ?thesis by simp
  next
    case False
    with prod fitl have "\<not> 2 ^ 64 \<le> unat pw * unat cs" by simp
    then show ?thesis by (simp add: overflow_check [OF cs(1)])
  qed
  have next_off: "unat off + unat pw' = block_offset C (Suc len)"
    using Suc.prems(1,4) upw' by (simp add: block_offset_Suc)
  have "block_offset C (Suc len) \<le> block_offset C W" using lt by (intro block_offset_mono) simp
  with fits next_off have sumfit: "unat off + unat pw' < 2 ^ 64" by simp
  then have nosub: "\<not> off > UINT64_MAX - pw'" by (simp add: sub_check)
  have uoff': "unat (off + pw') = block_offset C (Suc len)"
    using sumfit next_off by (simp add: unat_add_fits)
  have step: "pattern_offset_loop (int len) (int W) pw off cs
                = pattern_offset_loop (int (Suc len)) (int W) pw' (off + pw') cs"
    using lt noov nosub
    by (subst pattern_offset_loop.simps) (auto simp: Let_def pw'_def add.commute)
  have "\<exists>r. pattern_offset_loop (int (Suc len)) (int W) pw' (off + pw') cs = Some r
           \<and> unat r = block_offset C W"
  proof (rule Suc.hyps(1))
    show "d = W - Suc len" using Suc.hyps(2) by simp
    show "1 \<le> Suc len" by simp
    show "Suc len \<le> W" using lt by simp
    show "unat pw' = C ^ (Suc len - 1)" using upw' by simp
    show "unat (off + pw') = block_offset C (Suc len)" by (rule uoff')
  qed
  then show ?case unfolding step .
qed

lemma pattern_counts_eq:
  "pattern_counts segs a b c =
     (a + int (fixed_len segs) - int (any_one_count segs), b + int (any_one_count segs),
      c + int (star_count segs))"
  by (induction segs arbitrary: a b c)
     (auto simp: fixed_len_def any_one_count_def star_count_def)

lemma offsets_fit:
  assumes "1 \<le> C" "1 \<le> W" "C ^ W < (2::nat) ^ 64" "W < 2 ^ 64"
  shows "block_offset C (Suc W) < 2 ^ 64"
proof (cases "C = 1")
  case True
  then have "block_offset C (Suc W) = W" by (simp add: block_offset_def)
  with assms(4) show ?thesis by simp
next
  case False
  with assms(1) have "2 \<le> C" by simp
  then show ?thesis using assms(2,3) by (rule sum_fits)
qed

lemma segment_piece_simps:
  "token_piece charset s (segment_token ''?'') piece
     = (length piece = 1 \<and> set piece \<subseteq> set charset)"
  "token_piece charset s (segment_token ''*'') piece
     = (length piece = s \<and> set piece \<subseteq> set charset)"
  "seg \<noteq> ''?'' \<Longrightarrow> seg \<noteq> ''*'' \<Longrightarrow> token_piece charset s (segment_token seg) piece = (piece = seg)"
  by (simp_all add: segment_token_def)

lemma assemble_spec:
  "0 \<le> widx \<Longrightarrow> 0 \<le> star_len
    \<Longrightarrow> nat widx + any_one_count segs + nat star_len * star_count segs = length wv
    \<Longrightarrow> set wv \<subseteq> set charset
    \<Longrightarrow> \<exists>pieces. assemble segs wv star_len widx out = Some (out @ concat pieces)
          \<and> list_all2 (token_piece charset (nat star_len)) (map segment_token segs) pieces"
proof (induction segs arbitrary: widx out)
  case Nil
  then show ?case by simp
next
  case (Cons seg segs)
  show ?case
  proof (cases "seg = ''?''")
    case q: True
    let ?piece = "[wv ! nat widx]"
    have cnt: "any_one_count (seg # segs) = Suc (any_one_count segs)"
      "star_count (seg # segs) = star_count segs"
      using q by (simp_all add: any_one_count_def star_count_def)
    have lt: "nat widx < length wv" using Cons.prems(3) cnt by simp
    have "\<exists>pieces. assemble segs wv star_len (widx + 1) (out @ ?piece)
              = Some ((out @ ?piece) @ concat pieces)
          \<and> list_all2 (token_piece charset (nat star_len)) (map segment_token segs) pieces"
      using Cons.prems cnt by (intro Cons.IH) (simp_all add: nat_add_distrib)
    then obtain pieces where p:
      "assemble segs wv star_len (widx + 1) (out @ ?piece) = Some ((out @ ?piece) @ concat pieces)"
      "list_all2 (token_piece charset (nat star_len)) (map segment_token segs) pieces" by blast
    have m: "token_piece charset (nat star_len) (segment_token seg) ?piece"
      using q lt Cons.prems(4) by (auto simp: segment_piece_simps)
    show ?thesis
      using q lt p m by (intro exI [of _ "?piece # pieces"]) simp
  next
    case nq: False
    show ?thesis
    proof (cases "seg = ''*''")
      case st: True
      let ?piece = "take (nat star_len) (drop (nat widx) wv)"
      have cnt: "any_one_count (seg # segs) = any_one_count segs"
        "star_count (seg # segs) = Suc (star_count segs)"
        using st by (simp_all add: any_one_count_def star_count_def)
      have le: "nat (widx + star_len) \<le> length wv"
        using Cons.prems(1,2,3) cnt by (simp add: nat_add_distrib)
      have "\<exists>pieces. assemble segs wv star_len (widx + star_len) (out @ ?piece)
                = Some ((out @ ?piece) @ concat pieces)
            \<and> list_all2 (token_piece charset (nat star_len)) (map segment_token segs) pieces"
        using Cons.prems cnt by (intro Cons.IH) (simp_all add: nat_add_distrib)
      then obtain pieces where p:
        "assemble segs wv star_len (widx + star_len) (out @ ?piece)
           = Some ((out @ ?piece) @ concat pieces)"
        "list_all2 (token_piece charset (nat star_len)) (map segment_token segs) pieces" by blast
      have len: "length ?piece = nat star_len"
        using le Cons.prems(1,2) by (simp add: nat_add_distrib)
      have "set ?piece \<subseteq> set wv" by (meson set_drop_subset set_take_subset subset_trans)
      with Cons.prems(4) have "set ?piece \<subseteq> set charset" by blast
      with len have m: "token_piece charset (nat star_len) (segment_token seg) ?piece"
        using st by (simp add: segment_piece_simps)
      show ?thesis
        using st le p m by (intro exI [of _ "?piece # pieces"]) simp
    next
      case lit: False
      have cnt: "any_one_count (seg # segs) = any_one_count segs"
        "star_count (seg # segs) = star_count segs"
        using nq lit by (simp_all add: any_one_count_def star_count_def)
      have "\<exists>pieces. assemble segs wv star_len widx (out @ seg) = Some ((out @ seg) @ concat pieces)
            \<and> list_all2 (token_piece charset (nat star_len)) (map segment_token segs) pieces"
        using Cons.prems cnt by (intro Cons.IH) simp_all
      then obtain pieces where p:
        "assemble segs wv star_len widx (out @ seg) = Some ((out @ seg) @ concat pieces)"
        "list_all2 (token_piece charset (nat star_len)) (map segment_token segs) pieces" by blast
      have m: "token_piece charset (nat star_len) (segment_token seg) seg"
        using nq lit by (simp add: segment_piece_simps)
      show ?thesis
        using nq lit p m by (intro exI [of _ "seg # pieces"]) simp
    qed
  qed
qed

lemma pieces_length:
  "list_all2 (token_piece charset s) (map segment_token segs) pieces
     \<Longrightarrow> length (concat pieces) = fixed_len segs + s * star_count segs"
proof (induction segs arbitrary: pieces)
  case Nil
  then show ?case by (simp add: fixed_len_def star_count_def any_one_count_def)
next
  case (Cons seg segs)
  from Cons.prems obtain piece rest where pr: "pieces = piece # rest"
    "token_piece charset s (segment_token seg) piece"
    "list_all2 (token_piece charset s) (map segment_token segs) rest"
    by (auto simp: list_all2_Cons1)
  have ih: "length (concat rest) = fixed_len segs + s * star_count segs"
    using pr(3) by (rule Cons.IH)
  show ?case
    using pr(2) ih unfolding pr(1)
    by (auto simp: segment_token_def fixed_len_def star_count_def any_one_count_def
             split: if_splits)
qed

lemma to_size_t_nat: "to_size_t (int k) = word_of_nat k"
  by (simp add: to_size_t_def)

lemma power64_Some:
  "power64 c n = Some v \<Longrightarrow> c ^ n < 2 ^ 64 \<and> unat v = c ^ n"
  by (auto simp: power64_def unat_of_nat simp del: of_nat_power split: if_splits)

text \<open>
  What the enumerator does with a segment list, whatever pattern it came from: for every
  non-empty charset, every total length \<open>L\<close> (an \<^verbatim>\<open>int\<close>) and every local index \<open>j\<close>
  below the count that \<open>calculate_pattern_combinations\<close> gives for \<open>L\<close>, there is at
  most one any-many segment, and \<open>getPatternPasswordByIndex\<close> succeeds with a string of
  length exactly \<open>L\<close> that is the concatenation of one piece per segment, in segment
  order, each piece being what the kind the code gives the segment asks for.
\<close>

lemma segments_password_matches:
  assumes cs: "charset \<noteq> []" "length charset < 2 ^ 64"
    and L: "L \<le> 2147483647"
    and cnt: "calculate_pattern_combinations segments (word_of_nat (length charset)) L = Some n"
    and j: "j < n"
  shows "\<exists>pw pieces. getPatternPasswordByIndex j segments charset L = Some pw
      \<and> length pw = nat L \<and> star_count segments \<le> 1 \<and> int (fixed_len segments) \<le> L
      \<and> pw = concat pieces
      \<and> list_all2 (token_piece charset (nat L - fixed_len segments)) (map segment_token segments) pieces"
proof -
  let ?C = "length charset"
  let ?cs = "word_of_nat ?C :: uint64"
  let ?F = "fixed_len segments" and ?q = "any_one_count segments" and ?st = "star_count segments"
  have u: "unat ?cs = ?C" using cs(2) by (rule unat_charsetSize)
  with cs(1) have cs0: "?cs \<noteq> 0" by (metis length_0_conv unat_0)
  have C1: "1 \<le> ?C" using cs(1) by (simp add: Suc_le_eq)
  have n0: "n \<noteq> 0" using j by (metis word_not_simps(1))
  define s where "s = nat L - ?F"
  define W where "W = ?q + s"
  from cnt n0 have shape: "int ?F \<le> L" "?st \<le> 1" "?st = 0 \<longrightarrow> L = int ?F"
    "power64 ?C W = Some n"
    unfolding calculate_pattern_combinations_eq [OF cs0] u W_def s_def
    by (auto split: if_splits simp: nat_diff_distrib)
  have Lnat: "int (nat L) = L" using shape(1) by simp
  have sF: "?F + s = nat L" using shape(1) by (simp add: s_def)
  have s0: "?st = 0 \<Longrightarrow> s = 0" using shape(3) by (simp add: s_def)
  from power64_Some [OF shape(4)] have fitW: "?C ^ W < 2 ^ 64" and un: "unat n = ?C ^ W" by auto
  have uj: "unat j < ?C ^ W" using j un by (simp add: word_less_nat_alt)
  have Wle: "W \<le> nat L" using sF by (simp add: W_def fixed_len_def)
  have natL: "nat L < 2 ^ 31" using L by simp
  then have natL64: "nat L < 2 ^ 64" by (rule less_trans) simp
  have F64: "?F < 2 ^ 64" using sF natL64 by simp
  have W64: "W < 2 ^ 64" using Wle natL64 by simp
  \<comment> \<open>the guards\<close>
  have pc: "pattern_counts segments 0 0 0 = (int ?F - int ?q, int ?q, int ?st)"
    by (simp add: pattern_counts_eq)
  have "to_size_t L = to_size_t (int (nat L))" by (simp only: Lnat)
  then have szL: "to_size_t L = word_of_nat (nat L)" by (simp only: to_size_t_nat)
  have szF: "to_size_t (int ?F) = word_of_nat ?F" by (rule to_size_t_nat)
  have uL: "unat (to_size_t L) = nat L"
    unfolding szL unat_of_nat using natL64 by simp
  have uF: "unat (to_size_t (int ?F)) = ?F"
    unfolding szF unat_of_nat using F64 by simp
  have g1: "\<not> to_size_t L < to_size_t (int ?F)"
    unfolding word_less_nat_alt uL uF using shape(1) by simp
  have g3: "?st = 0 \<Longrightarrow> to_size_t L = to_size_t (int ?F)" using shape(3) by simp
  define star_len where "star_len = (if int ?st > 0 then L - int ?F else 0)"
  have sl: "star_len = int s"
    using shape(1) s0 by (auto simp: star_len_def s_def)
  have twc: "int ?q + star_len = int W" by (simp add: sl W_def)
  \<comment> \<open>the wildcard fill\<close>
  define wvo where "wvo =
     (if int W > 0 then
        (case pattern_offset_loop 1 (int W) 1 0 ?cs of
           None \<Rightarrow> None
         | Some offset \<Rightarrow>
             if offset > UINT64_MAX - j then None
             else
               (case getPasswordByIndex (offset + j) charset (int W) of
                  None \<Rightarrow> None
                | Some wildcard_values \<Rightarrow>
                    if word_of_nat (length wildcard_values) \<noteq> to_size_t (int W)
                    then None else Some wildcard_values))
      else Some [])"
  have wv: "\<exists>wv. wvo = Some wv \<and> length wv = W \<and> set wv \<subseteq> set charset"
  proof (cases "W = 0")
    case True
    then show ?thesis by (simp add: wvo_def)
  next
    case False
    then have W1: "1 \<le> W" by simp
    have fitS: "block_offset ?C (Suc W) < 2 ^ 64" using C1 W1 fitW W64 by (rule offsets_fit)
    have "block_offset ?C W \<le> block_offset ?C (Suc W)" by (intro block_offset_mono) simp
    with fitS have fitO: "block_offset ?C W < 2 ^ 64" by simp
    have "\<exists>r. pattern_offset_loop (int 1) (int W) 1 0 ?cs = Some r \<and> unat r = block_offset ?C W"
      using W1 by (intro pattern_offset_loop_spec [OF cs0 u fitO]) simp_all
    then obtain r where r: "pattern_offset_loop 1 (int W) 1 0 ?cs = Some r"
      "unat r = block_offset ?C W" by auto
    have sum: "unat r + unat j < block_offset ?C (Suc W)"
      using uj W1 by (simp add: r(2) block_offset_Suc)
    with fitS have rj: "unat r + unat j < 2 ^ 64" by simp
    then have g: "\<not> r > UINT64_MAX - j" by (simp add: sub_check)
    have urj: "unat (r + j) = block_offset ?C W + unat j"
      using rj by (simp add: unat_add_fits r(2))
    with sum r(2) have "unat (r + j) < block_offset ?C (Suc W)" by simp
    from getPasswordByIndex_spec [OF cs W1 fitS this]
    obtain L' x where Lx: "1 \<le> L'" "unat (r + j) = block_offset ?C L' + x" "x < ?C ^ L'"
      "getPasswordByIndex (r + j) charset (int W) = Some (candidate charset L' x)" by blast
    from block_decomposition_unique [OF Lx(2) [unfolded urj] uj Lx(3) W1 Lx(1)]
    have "L' = W" by simp
    with Lx(4) have gp: "getPasswordByIndex (r + j) charset (int W) = Some (candidate charset W x)"
      by simp
    have "wvo = Some (candidate charset W x)"
      using False r(1) g gp by (simp add: wvo_def to_size_t_nat)
    then show ?thesis using candidate_set [OF cs(1), of W x] by simp
  qed
  then obtain wv where wv: "wvo = Some wv" "length wv = W" "set wv \<subseteq> set charset" by blast
  \<comment> \<open>the assembly\<close>
  have "nat 0 + ?q + nat star_len * ?st = length wv"
  proof (cases "?st = 0")
    case True
    then show ?thesis using s0 by (simp add: wv(2) W_def sl)
  next
    case False
    with shape(2) have "?st = 1" by simp
    then show ?thesis by (simp add: wv(2) W_def sl)
  qed
  from assemble_spec [OF _ _ this wv(3), of "[]"] sl
  obtain pieces where pieces: "assemble segments wv star_len 0 [] = Some (concat pieces)"
    "list_all2 (token_piece charset s) (map segment_token segments) pieces" by auto
  have "length (concat pieces) = ?F + s * ?st" using pieces(2) by (rule pieces_length)
  also have "\<dots> = nat L"
  proof (cases "?st = 0")
    case True
    then show ?thesis using s0 sF by simp
  next
    case False
    with shape(2) have "?st = 1" by simp
    then show ?thesis using sF by simp
  qed
  finally have len: "length (concat pieces) = nat L" .
  have e: "int ?F - int ?q + int ?q = int ?F" by simp
  have g2: "\<not> (int ?st > 0 \<and> L - int ?F < 0)" using shape(1) by simp
  have g3': "\<not> (\<not> int ?st > 0 \<and> to_size_t L \<noteq> to_size_t (int ?F))" using g3 by auto
  have g4: "\<not> int W < 0" by simp
  have lenw: "(word_of_nat (length (concat pieces)) :: uint64) = to_size_t L"
    by (simp only: len szL)
  have res: "getPatternPasswordByIndex j segments charset L = Some (concat pieces)"
    unfolding getPatternPasswordByIndex_def Let_def pc prod.case e
    by (simp only: cs0 g1 g2 g3' g4 star_len_def [symmetric] twc wvo_def [symmetric] wv(1)
          pieces(1) lenw option.case if_False if_True simp_thms)
  show ?thesis
    using res len shape(1,2) pieces(2) unfolding s_def by blast
qed

lemma parse_example: "parse_pattern ''a?b*'' = [''a'', ''?'', ''b'', ''*'']"
  by (simp add: parse_pattern_def)

lemma count_example:
  "calculate_pattern_combinations (parse_pattern ''a?b*'') (word_of_nat (length ''xy'')) 4 = Some 4"
  unfolding parse_example
  using calculate_pattern_combinations_eq [of 2 "[''a'', ''?'', ''b'', ''*'']" 4]
  by (simp add: fixed_len_def star_count_def any_one_count_def power64_def)

lemma segments_password_example:
  "\<exists>pw pieces. getPatternPasswordByIndex 3 (parse_pattern ''a?b*'') ''xy'' 4 = Some pw
      \<and> length pw = nat 4 \<and> star_count (parse_pattern ''a?b*'') \<le> 1
      \<and> int (fixed_len (parse_pattern ''a?b*'')) \<le> 4
      \<and> pw = concat pieces
      \<and> list_all2 (token_piece ''xy'' (nat 4 - fixed_len (parse_pattern ''a?b*'')))
            (map segment_token (parse_pattern ''a?b*'')) pieces"
proof -
  have a: "''xy'' \<noteq> []" "length ''xy'' < 2 ^ 64" "(4::int) \<le> 2147483647" by simp_all
  have b: "(3 :: uint64) < 4" by simp
  from segments_password_matches [OF a count_example b] show ?thesis .
qed

subsection \<open>The parser against the pattern language\<close>

text \<open>
  \<open>parse_pattern\<close> produces, token by token, the strings that stand for the tokens of
  the pattern.
\<close>

lemma collapse_literal_char:
  "collapse_literals ((if cur = [] then [] else [literal cur]) @ literal [c] # ts)
     = collapse_literals (literal (cur @ [c]) # ts)"
  by simp

lemma collapse_wild:
  assumes "t = any_one \<or> t = any_many"
  shows "collapse_literals ((if cur = [] then [] else [literal cur]) @ t # ts)
     = (if cur = [] then [] else [literal cur]) @ t # collapse_literals ts"
  using assms by auto

lemma collapse_last:
  "collapse_literals (if cur = [] then [] else [literal cur])
     = (if cur = [] then [] else [literal cur])"
  by simp

lemma parse_pattern_loop_tokens:
  "parse_pattern_loop cs segments cur False =
     segments @ map token_segment
       (collapse_literals ((if cur = [] then [] else [literal cur]) @ pattern_lex cs))"
proof (induction cs arbitrary: segments cur rule: pattern_lex.induct)
  case 1
  show ?case by (simp only: pattern_lex.simps append_Nil2 collapse_last) simp
next
  case (2 c)
  show ?case
  proof (cases "c = CHR 0x5C")
    case True
    then show ?thesis by (simp only: pattern_lex.simps append_Nil2 collapse_last) simp
  next
    case False
    show ?thesis
    proof (cases "c = CHR ''*'' \<or> c = CHR ''?''")
      case True
      then have w: "char_token c = any_one \<or> char_token c = any_many"
        by (auto simp: char_token_def)
      have ts: "token_segment (char_token c) = [c]" using True by (auto simp: char_token_def)
      have "pattern_lex [c] = [char_token c]" using False by simp
      then show ?thesis using True False ts
        by (simp only: collapse_wild [OF w]) auto
    next
      case notw: False
      then have "char_token c = literal [c]" by (auto simp: char_token_def)
      then have "pattern_lex [c] = [literal [c]]" using False by simp
      then show ?thesis using notw False
        by (simp only: collapse_literal_char) simp
    qed
  qed
next
  case (3 c d cs)
  show ?case
  proof (cases "c = CHR 0x5C")
    case True
    have "parse_pattern_loop (c # d # cs) segments cur False
            = parse_pattern_loop cs segments (cur @ [d]) False"
      using True by simp
    also have "\<dots> = segments @ map token_segment
        (collapse_literals ([literal (cur @ [d])] @ pattern_lex cs))"
      using "3.IH"(1) [OF True, of segments "cur @ [d]"] by simp
    also have "collapse_literals ([literal (cur @ [d])] @ pattern_lex cs)
        = collapse_literals ((if cur = [] then [] else [literal cur]) @ pattern_lex (c # d # cs))"
      using True by simp
    finally show ?thesis .
  next
    case False
    show ?thesis
    proof (cases "c = CHR ''*'' \<or> c = CHR ''?''")
      case True
      then have w: "char_token c = any_one \<or> char_token c = any_many"
        by (auto simp: char_token_def)
      have ts: "token_segment (char_token c) = [c]" using True by (auto simp: char_token_def)
      have lx: "pattern_lex (c # d # cs) = char_token c # pattern_lex (d # cs)"
        using False by simp
      have "parse_pattern_loop (c # d # cs) segments cur False
              = parse_pattern_loop (d # cs)
                  ((if cur \<noteq> [] then segments @ [cur] else segments) @ [[c]]) [] False"
        using True False by simp
      also have "\<dots> = ((if cur \<noteq> [] then segments @ [cur] else segments) @ [[c]])
            @ map token_segment (collapse_literals (pattern_lex (d # cs)))"
        using "3.IH"(2) [OF False, of "(if cur \<noteq> [] then segments @ [cur] else segments) @ [[c]]" "[]"]
        by simp
      also have "\<dots> = segments @ map token_segment
          (collapse_literals ((if cur = [] then [] else [literal cur]) @ pattern_lex (c # d # cs)))"
        unfolding lx collapse_wild [OF w] using ts by simp
      finally show ?thesis .
    next
      case notw: False
      then have ct: "char_token c = literal [c]" by (auto simp: char_token_def)
      have lx: "pattern_lex (c # d # cs) = literal [c] # pattern_lex (d # cs)"
        using False ct by simp
      have "parse_pattern_loop (c # d # cs) segments cur False
              = parse_pattern_loop (d # cs) segments (cur @ [c]) False"
        using notw False by simp
      also have "\<dots> = segments @ map token_segment
          (collapse_literals ([literal (cur @ [c])] @ pattern_lex (d # cs)))"
        using "3.IH"(2) [OF False, of segments "cur @ [c]"] by simp
      also have "collapse_literals ([literal (cur @ [c])] @ pattern_lex (d # cs))
          = collapse_literals ((if cur = [] then [] else [literal cur]) @ pattern_lex (c # d # cs))"
        unfolding lx collapse_literal_char by simp
      finally show ?thesis .
    qed
  qed
qed

lemma parse_pattern_tokens:
  "parse_pattern pattern = map token_segment (pattern_tokens pattern)"
  unfolding parse_pattern_def pattern_tokens_def
  using parse_pattern_loop_tokens [of pattern "[]" "[]"] by simp

text \<open>
  The string of a token gives the token back through the code's tests, except for the
  literals \<open>''?''\<close> and \<open>''*''\<close>: as strings they are the wildcards.
\<close>

lemma segment_token_segment:
  "t \<noteq> literal ''?'' \<Longrightarrow> t \<noteq> literal ''*'' \<Longrightarrow> segment_token (token_segment t) = t"
  by (cases t) (auto simp: segment_token_def)

lemma segment_tokens_of_pattern:
  assumes "literal ''?'' \<notin> set (pattern_tokens pattern)"
    and "literal ''*'' \<notin> set (pattern_tokens pattern)"
  shows "map segment_token (parse_pattern pattern) = pattern_tokens pattern"
proof -
  have "map segment_token (map token_segment ts) = ts"
    if "literal ''?'' \<notin> set ts" "literal ''*'' \<notin> set ts" for ts
    using that by (induction ts) (auto simp: segment_token_segment)
  with assms show ?thesis unfolding parse_pattern_tokens by blast
qed

text \<open>
  So for every pattern in which no escaped \<^verbatim>\<open>?\<close> or \<^verbatim>\<open>*\<close> stands alone as a literal, the
  string produced for a local index below the count matches the pattern token by token:
  one charset character for each any-one, \<open>L - fixed_length\<close> charset characters for the
  any-many, every literal verbatim, in order.
\<close>

lemma pattern_password_matches:
  assumes cs: "charset \<noteq> []" "length charset < 2 ^ 64"
    and L: "L \<le> 2147483647"
    and esc: "literal ''?'' \<notin> set (pattern_tokens pattern)"
      "literal ''*'' \<notin> set (pattern_tokens pattern)"
    and cnt: "calculate_pattern_combinations (parse_pattern pattern)
                (word_of_nat (length charset)) L = Some n"
    and j: "j < n"
  shows "\<exists>pw pieces. getPatternPasswordByIndex j (parse_pattern pattern) charset L = Some pw
      \<and> length pw = nat L \<and> pw = concat pieces
      \<and> list_all2 (token_piece charset (nat L - fixed_len (parse_pattern pattern)))
            (pattern_tokens pattern) pieces"
  using segments_password_matches [OF cs L cnt j]
  unfolding segment_tokens_of_pattern [OF esc] by blast

subsection \<open>An escaped wildcard standing alone\<close>

lemma escaped_qmark_parsed: "parse_pattern escaped_qmark = [''?'']"
  by (simp add: parse_pattern_def escaped_qmark_def)

lemma qmark_parsed: "parse_pattern ''?'' = [''?'']"
  by (simp add: parse_pattern_def)

lemma escaped_qmark_tokens: "pattern_tokens escaped_qmark = [literal ''?'']"
  by (simp add: pattern_tokens_def escaped_qmark_def)

lemma one_qmark_count:
  "calculate_pattern_combinations [''?''] (word_of_nat (length ''ab'')) 1 = Some 2"
  using calculate_pattern_combinations_eq [of 2 "[''?'']" 1]
  by (simp add: fixed_len_def star_count_def any_one_count_def power64_def)

lemma one_qmark_candidates:
  "getPatternPasswordByIndex 0 [''?''] ''ab'' 1 = Some ''a''"
  "getPatternPasswordByIndex 1 [''?''] ''ab'' 1 = Some ''b''"
  by (simp_all add: getPatternPasswordByIndex_def pattern_offset_loop.simps to_size_t_def
        getPasswordByIndex_def getPasswordByIndex_loop.simps fill_loop.simps UINT64_MAX_def
        word_le_nat_alt word_less_nat_alt)

text \<open>
  Whatever the charset, the only string that matches the tokens of \<^verbatim>\<open>\?\<close> is the
  question mark itself.
\<close>

lemma escaped_qmark_matches_only_itself:
  "(\<exists>pieces. pw = concat pieces
      \<and> list_all2 (token_piece charset s) (pattern_tokens escaped_qmark) pieces)
     \<longleftrightarrow> pw = ''?''"
  unfolding escaped_qmark_tokens by (auto simp: list_all2_Cons1)

text \<open>
  C2 says that for every parsed pattern with at most one any-many, every non-empty
  charset, every total length \<open>L\<close> and every local index below the count for \<open>L\<close>,
  \<open>getPatternPasswordByIndex\<close> produces a string of length \<open>L\<close> that matches the
  pattern, literal segments being emitted verbatim. The code does not do that for a
  pattern in which an escaped wildcard stands alone. The pattern \<^verbatim>\<open>\?\<close> is the literal
  question mark; \<open>parse_pattern\<close> turns it into the segment \<open>''?''\<close>, the same segment
  list as for the pattern \<^verbatim>\<open>?\<close>; with the charset \<open>''ab''\<close> and the length 1 the count
  is 2, not 1, and the local indices 0 and 1 give \<open>''a''\<close> and \<open>''b''\<close>, never \<open>''?''\<close>.
\<close>

theorem escaped_wildcard_is_enumerated:
  "parse_pattern escaped_qmark = [''?'']
   \<and> parse_pattern escaped_qmark = parse_pattern ''?''
   \<and> calculate_pattern_combinations (parse_pattern escaped_qmark)
        (word_of_nat (length ''ab'')) 1 = Some 2
   \<and> getPatternPasswordByIndex 0 (parse_pattern escaped_qmark) ''ab'' 1 = Some ''a''
   \<and> getPatternPasswordByIndex 1 (parse_pattern escaped_qmark) ''ab'' 1 = Some ''b''"
  unfolding escaped_qmark_parsed qmark_parsed
  using one_qmark_count one_qmark_candidates by simp

section \<open>Properties of the chunking\<close>

lemma unat_succ_less:
  assumes "(t :: uint32) < n"
  shows "unat (t + 1) = Suc (unat t)"
proof -
  have "unat t < unat n" using assms by (simp add: word_less_nat_alt)
  moreover have "unat n < 2 ^ 32" using unsigned_less [of n, where 'a = nat] by simp
  ultimately have "unat t + unat (1 :: uint32) < 2 ^ LENGTH(32)" by simp
  then have "unat (t + 1) = unat t + unat (1 :: uint32)"
    by (simp only: unat_add_lem [THEN iffD1])
  then show ?thesis by simp
qed

lemma unat_ucast_32_64: "unat (ucast (t :: uint32) :: uint64) = unat t"
proof -
  have "unat t < 2 ^ 32" using unsigned_less [of t, where 'a = nat] by simp
  then have "unat t < 2 ^ 64" by (rule less_trans) simp
  then show ?thesis by (simp add: unsigned_ucast_eq take_bit_nat_eq_self)
qed

lemma ceil_div_facts:
  fixes N T :: nat
  assumes "1 \<le> N" "1 \<le> T"
  defines "I \<equiv> (N + T - 1) div T"
  shows "1 \<le> I" "T * I \<le> N + T - 1" "N \<le> T * I"
proof -
  have "T \<le> N + T - 1" using assms(1) by simp
  then have "T div T \<le> (N + T - 1) div T" by (rule div_le_mono)
  then show "1 \<le> I" using assms(2) by (simp add: I_def)
  show "T * I \<le> N + T - 1" unfolding I_def by simp
  have "N + T - 1 < T * I + T"
    unfolding I_def using assms(2) dividend_less_times_div [of T "N + T - 1"] by simp
  then show "N \<le> T * I" by simp
qed

lemma chunk_count_iff:
  fixes N I :: nat
  assumes "1 \<le> N" "1 \<le> I"
  shows "k < (N + I - 1) div I \<longleftrightarrow> k * I < N"
proof -
  have "k < (N + I - 1) div I \<longleftrightarrow> Suc k \<le> (N + I - 1) div I" by auto
  also have "\<dots> \<longleftrightarrow> Suc k * I \<le> N + I - 1"
    using assms(2) by (simp add: less_eq_div_iff_mult_less_eq)
  also have "\<dots> \<longleftrightarrow> k * I < N" using assms by auto
  finally show ?thesis .
qed

lemma unat_of_nat_small: "n < 2 ^ 64 \<Longrightarrow> unat (word_of_nat n :: uint64) = n"
  by (simp add: unat_of_nat)

lemma itemsPerThread_of_unat:
  assumes "1 \<le> unat N" "1 \<le> unat T" "unat N + unat T \<le> 2 ^ 64"
  shows "unat (itemsPerThread_of N T) = (unat N + unat T - 1) div unat T"
proof -
  let ?T = "ucast T :: uint64"
  have uT: "unat ?T = unat T" by (rule unat_ucast_32_64)
  have T0: "?T \<noteq> 0" using assms(2) uT by (metis not_one_le_zero unat_0)
  have "unat (?T - 1) = unat T - 1" using T0 uT by (simp add: unat_minus_one)
  moreover have "unat N + (unat T - 1) < 2 ^ 64" using assms(2,3) by simp
  ultimately have "unat (N + (?T - 1)) = unat N + (unat T - 1)"
    using unat_add_lem [of N "?T - 1"] by simp
  moreover have e: "N + ?T - 1 = N + (?T - 1)" by simp
  ultimately have sum: "unat (N + ?T - 1) = unat N + unat T - 1"
    unfolding e using assms(2) by simp
  have q: "unat ((N + ?T - 1) div ?T) = (unat N + unat T - 1) div unat T"
    by (simp only: unat_div sum uT)
  have "1 \<le> (unat N + unat T - 1) div unat T" using assms(1,2) by (rule ceil_div_facts(1))
  with q have "(N + ?T - 1) div ?T \<noteq> 0" by (metis not_one_le_zero unat_0)
  then show ?thesis using q by (simp add: itemsPerThread_of_def Let_def)
qed

lemma spawn_loop_chunks:
  assumes I: "1 \<le> I" "unat ipt = I" and N: "1 \<le> unat N" "unat N \<le> unat T * I"
    and fits: "unat T * I < 2 ^ 64"
  defines "M \<equiv> (unat N + I - 1) div I"
  shows "unat t \<le> M \<Longrightarrow>
     spawn_loop never_stop t T ipt N =
       map (\<lambda>k. (word_of_nat (k * I), word_of_nat (min ((k + 1) * I) (unat N)))) [unat t..<M]"
proof (induction "M - unat t" arbitrary: t)
  case 0
  then have tM: "unat t = M" by simp
  then have ge: "unat N \<le> unat t * I"
    using chunk_count_iff [OF N(1) I(1), of "unat t"] by (simp add: M_def)
  show ?case
  proof (cases "t < T")
    case False
    then show ?thesis using tM by (subst spawn_loop.simps) simp
  next
    case True
    then have "unat t < unat T" by (simp add: word_less_nat_alt)
    then have "unat t * I \<le> unat T * I" by (intro mult_le_mono1) simp
    from this fits have f: "unat t * I < 2 ^ 64" by (rule le_less_trans)
    have "unat (ucast t * ipt) = unat t * I"
      using f unat_mult_lem [of "ucast t :: uint64" ipt] by (simp add: unat_ucast_32_64 I(2))
    with ge have "N \<le> ucast t * ipt" by (simp add: word_le_nat_alt)
    then have "min (ucast t * ipt + ipt) N \<le> ucast t * ipt" by (rule min.coboundedI2)
    then show ?thesis using tM True
      by (subst spawn_loop.simps) (simp add: Let_def never_stop_def)
  qed
next
  case (Suc d)
  then have lt: "unat t < M" by simp
  then have ltN: "unat t * I < unat N"
    using chunk_count_iff [OF N(1) I(1), of "unat t"] by (simp add: M_def)
  have tT: "unat t < unat T"
  proof (rule ccontr)
    assume "\<not> unat t < unat T"
    then have "unat T * I \<le> unat t * I" by simp
    with ltN N(2) show False by simp
  qed
  then have tlt: "t < T" by (simp add: word_less_nat_alt)
  have "Suc (unat t) * I \<le> unat T * I" using tT by (intro mult_le_mono1) simp
  from this fits have f2: "Suc (unat t) * I < 2 ^ 64" by (rule le_less_trans)
  have "unat t * I \<le> Suc (unat t) * I" by simp
  from this f2 have f1: "unat t * I < 2 ^ 64" by (rule le_less_trans)
  have ustart: "unat (ucast t * ipt) = unat t * I"
    using f1 unat_mult_lem [of "ucast t :: uint64" ipt] by (simp add: unat_ucast_32_64 I(2))
  have "unat (ucast t * ipt) + unat ipt < 2 ^ 64" using f2 by (simp add: ustart I(2))
  then have uend0: "unat (ucast t * ipt + ipt) = Suc (unat t) * I"
    by (simp add: unat_add_fits ustart I(2))
  have uend: "unat (min (ucast t * ipt + ipt) N) = min (Suc (unat t) * I) (unat N)"
    by (simp add: min_def word_le_nat_alt uend0)
  have "unat (ucast t * ipt) < unat (min (ucast t * ipt + ipt) N)"
    unfolding ustart uend using ltN I(1) by simp
  then have nonempty: "\<not> min (ucast t * ipt + ipt) N \<le> ucast t * ipt"
    by (simp add: word_le_nat_alt)
  have st: "ucast t * ipt = word_of_nat (unat t * I)"
    unfolding ustart [symmetric] by simp
  have en: "min (ucast t * ipt + ipt) N = word_of_nat (min ((unat t + 1) * I) (unat N))"
    unfolding Suc_eq_plus1 [symmetric] uend [symmetric] by simp
  have usuc: "unat (t + 1) = Suc (unat t)" using tlt by (rule unat_succ_less)
  have ih: "spawn_loop never_stop (t + 1) T ipt N =
       map (\<lambda>k. (word_of_nat (k * I), word_of_nat (min ((k + 1) * I) (unat N))))
         [unat (t + 1)..<M]"
    using Suc.hyps(2) lt usuc by (intro Suc.hyps(1)) simp_all
  have "spawn_loop never_stop t T ipt N
          = (ucast t * ipt, min (ucast t * ipt + ipt) N) # spawn_loop never_stop (t + 1) T ipt N"
    using tlt nonempty by (subst spawn_loop.simps) (simp add: Let_def never_stop_def)
  also have "\<dots> = map (\<lambda>k. (word_of_nat (k * I), word_of_nat (min ((k + 1) * I) (unat N))))
                       (unat t # [Suc (unat t)..<M])"
    by (simp only: ih usuc st en [unfolded st] list.map)
  also have "unat t # [Suc (unat t)..<M] = [unat t..<M]" using lt by (simp add: upt_conv_Cons)
  finally show ?case .
qed

lemma dispatch_chunks_eq:
  assumes "1 \<le> unat N" "1 \<le> unat T" "unat N + unat T \<le> 2 ^ 64"
  defines "I \<equiv> (unat N + unat T - 1) div unat T"
  defines "M \<equiv> (unat N + I - 1) div I"
  shows "dispatch_chunks never_stop N T =
           map (\<lambda>k. (word_of_nat (k * I), word_of_nat (min ((k + 1) * I) (unat N)))) [0..<M]"
    and "1 \<le> I" and "M \<le> unat T" and "\<And>k. k < M \<longleftrightarrow> k * I < unat N"
    and "\<And>k. k < M \<Longrightarrow> (k + 1) * I < 2 ^ 64"
proof -
  have I1: "1 \<le> I" and TI: "unat T * I \<le> unat N + unat T - 1" and NI: "unat N \<le> unat T * I"
    using ceil_div_facts [OF assms(1,2)] by (simp_all add: I_def)
  have fits: "unat T * I < 2 ^ 64" using TI assms(2,3) by simp
  have uI: "unat (itemsPerThread_of N T) = I"
    using assms(1,2,3) by (simp add: itemsPerThread_of_unat I_def)
  have iff: "k < M \<longleftrightarrow> k * I < unat N" for k
    unfolding M_def using assms(1) I1 by (rule chunk_count_iff)
  have MT: "M \<le> unat T"
  proof (rule ccontr)
    assume "\<not> M \<le> unat T"
    then have "unat T < M" by simp
    then have "unat T * I < unat N" by (simp add: iff)
    with NI show False by simp
  qed
  show "dispatch_chunks never_stop N T =
           map (\<lambda>k. (word_of_nat (k * I), word_of_nat (min ((k + 1) * I) (unat N)))) [0..<M]"
    unfolding dispatch_chunks_def M_def
    using spawn_loop_chunks [OF I1 uI assms(1) NI fits, of 0] by simp
  show "1 \<le> I" by (rule I1)
  show "M \<le> unat T" by (rule MT)
  show "\<And>k. k < M \<longleftrightarrow> k * I < unat N" by (rule iff)
  show "(k + 1) * I < 2 ^ 64" if "k < M" for k
  proof -
    have "k + 1 \<le> unat T" using that MT by simp
    then have "(k + 1) * I \<le> unat T * I" by (rule mult_le_mono1)
    from this fits show ?thesis by (rule le_less_trans)
  qed
qed

lemma intervals_cover:
  fixes N I :: nat
  assumes "1 \<le> I" "\<And>k. k < M \<longleftrightarrow> k * I < N"
  shows "(\<Union>k \<in> {..<M}. {k * I..<min ((k + 1) * I) N}) = {0..<N}"
proof (intro set_eqI iffI)
  fix x assume "x \<in> (\<Union>k \<in> {..<M}. {k * I..<min ((k + 1) * I) N})"
  then show "x \<in> {0..<N}" by auto
next
  fix x assume "x \<in> {0..<N}"
  then have x: "x < N" by simp
  let ?k = "x div I"
  have lo: "?k * I \<le> x" by simp
  have hi: "x < (?k + 1) * I" using assms(1) dividend_less_div_times [of I x] by simp
  from lo x have "?k * I < N" by (rule le_less_trans)
  then have "?k < M" by (simp add: assms(2))
  moreover have "x \<in> {?k * I..<min ((?k + 1) * I) N}" using lo hi x by simp
  ultimately show "x \<in> (\<Union>k \<in> {..<M}. {k * I..<min ((k + 1) * I) N})" by blast
qed

lemma chunk_indices_map:
  assumes "\<And>k. k < M \<Longrightarrow> unat (fst (f k)) = a k \<and> unat (snd (f k)) = b k"
  shows "chunk_indices (map f [0..<M]) = (\<Union>k \<in> {..<M}. {a k..<b k})"
  using assms by (auto simp: chunk_indices_def split_beta)

lemma dispatch_chunks_props:
  assumes "1 \<le> unat N" "1 \<le> unat T" "unat N + unat T \<le> 2 ^ 64"
  defines "I \<equiv> (unat N + unat T - 1) div unat T"
  defines "chunks \<equiv> dispatch_chunks never_stop N T"
  shows "length chunks \<le> unat T"
    and "\<And>k. k < length chunks \<Longrightarrow>
           unat (fst (chunks ! k)) = k * I \<and> unat (snd (chunks ! k)) = min ((k + 1) * I) (unat N)
           \<and> fst (chunks ! k) < snd (chunks ! k)"
    and "chunk_indices chunks = {0..<unat N}"
proof -
  define M where "M = (unat N + I - 1) div I"
  let ?f = "\<lambda>k. (word_of_nat (k * I) :: uint64, word_of_nat (min ((k + 1) * I) (unat N)) :: uint64)"
  note eq = dispatch_chunks_eq [OF assms(1,2,3), folded I_def, folded M_def]
  have ch: "chunks = map ?f [0..<M]" unfolding chunks_def by (rule eq(1))
  have len: "length chunks = M" by (simp add: ch)
  show "length chunks \<le> unat T" using eq(3) by (simp add: len)
  have vals: "unat (fst (?f k)) = k * I \<and> unat (snd (?f k)) = min ((k + 1) * I) (unat N)"
    if "k < M" for k
  proof -
    have f2: "(k + 1) * I < 2 ^ 64" using that by (rule eq(5))
    have "k * I \<le> (k + 1) * I" by simp
    from this f2 have f1: "k * I < 2 ^ 64" by (rule le_less_trans)
    have "min ((k + 1) * I) (unat N) \<le> (k + 1) * I" by simp
    from this f2 have f3: "min ((k + 1) * I) (unat N) < 2 ^ 64" by (rule le_less_trans)
    show ?thesis
      by (simp only: fst_conv snd_conv unat_of_nat_small [OF f1] unat_of_nat_small [OF f3])
  qed
  show "unat (fst (chunks ! k)) = k * I \<and> unat (snd (chunks ! k)) = min ((k + 1) * I) (unat N)
           \<and> fst (chunks ! k) < snd (chunks ! k)" if "k < length chunks" for k
  proof -
    from that have k: "k < M" by (simp add: len)
    have nth: "chunks ! k = ?f k" using k by (simp add: ch)
    have "k * I < unat N" using k by (simp add: eq(4))
    moreover have "k * I < (k + 1) * I" using eq(2) by simp
    ultimately have "k * I < min ((k + 1) * I) (unat N)" by simp
    with vals [OF k] show ?thesis unfolding nth by (simp add: word_less_nat_alt)
  qed
  have "chunk_indices chunks = (\<Union>k \<in> {..<M}. {k * I..<min ((k + 1) * I) (unat N)})"
    unfolding ch using vals by (intro chunk_indices_map) blast
  also have "\<dots> = {0..<unat N}" using eq(2) eq(4) by (rule intervals_cover)
  finally show "chunk_indices chunks = {0..<unat N}" .
qed

subsection \<open>The counts that are chunked\<close>

text \<open>
  The spawn loop is inline in the controller, so the count it chunks is one the
  controller has computed: \<open>calculate_combinations\<close> of a length, or
  \<open>calculate_pattern_combinations\<close> of the segments and a length, or in the random modes
  a total that has passed the test against \<open>MAX_REASONABLE_INDICES_RAM\<close>. The first two
  are 0 or a power \<open>C^W\<close> below \<open>2^64\<close> of the charset size \<open>C\<close>. Such a power leaves
  room for a 32-bit thread count: for \<open>W \<ge> 2\<close> it is at most \<open>2^64 - 2^32\<close>, and for
  \<open>W = 1\<close> it is the length of the charset.
\<close>

lemma power_count_leaves_room:
  assumes "2 \<le> W" "C ^ W < (2::nat) ^ 64"
  shows "C ^ W + 2 ^ 32 \<le> 2 ^ 64"
proof (cases "2 \<le> C")
  case False
  then have "C \<le> 1" by simp
  then have "C ^ W \<le> 1" by (intro power_le_one) simp_all
  then show ?thesis by simp
next
  case True
  have "(2::nat) ^ W \<le> C ^ W" using True by (intro power_mono) auto
  from this assms(2) have "(2::nat) ^ W < 2 ^ 64" by (rule le_less_trans)
  then have W64: "W < 64" by (rule power_less_imp_less_exp [rotated]) simp
  define c where "c = root_table ! (W - 2)"
  from table_row [OF assms(1) W64] have c: "2 ^ 64 \<le> (c + 1) ^ W" "c ^ W + 2 ^ 32 \<le> 2 ^ 64"
    unfolding row_ok_def Let_def c_def by blast+
  have "C \<le> c"
  proof (rule ccontr)
    assume "\<not> C \<le> c"
    then have "c + 1 \<le> C" by simp
    then have "(c + 1) ^ W \<le> C ^ W" by (rule power_mono) simp
    with c(1) assms(2) show False by simp
  qed
  then have "C ^ W \<le> c ^ W" by (rule power_mono) simp
  with c(2) show ?thesis by simp
qed

lemma power64_leaves_room:
  assumes "C + 2 ^ 32 \<le> (2::nat) ^ 64" "power64 C W = Some N"
  shows "unat N + 2 ^ 32 \<le> 2 ^ 64"
proof -
  from assms(2) have p: "C ^ W < 2 ^ 64" "unat N = C ^ W" by (auto dest: power64_Some)
  consider "W = 0" | "W = 1" | "2 \<le> W" by linarith
  then show ?thesis
  proof cases
    case 1
    have "unat N = 1" unfolding p(2) 1 by simp
    then show ?thesis by simp
  next
    case 2
    have "unat N = C" unfolding p(2) 2 by simp
    then show ?thesis using assms(1) by (simp only:)
  next
    case 3
    from this p(1) have "C ^ W + 2 ^ 32 \<le> (2::nat) ^ 64" by (rule power_count_leaves_room)
    then show ?thesis by (simp only: p(2))
  qed
qed

lemma MAX_REASONABLE_INDICES_RAM_value: "MAX_REASONABLE_INDICES_RAM = 536870912"
  unfolding MAX_REASONABLE_INDICES_RAM_def by (simp add: word_div_def)

lemma calculate_combinations_shape:
  assumes "cs \<noteq> 0" "calculate_combinations cs len = Some N"
  shows "N = 0 \<or> (\<exists>W. power64 (unat cs) W = Some N)"
proof (cases "len \<le> 0")
  case True
  with assms(2) show ?thesis by (simp add: calculate_combinations_def)
next
  case False
  with assms(2) have "power64 (unat cs) (nat len) = Some N"
    by (simp add: calculate_combinations_def combinations_loop_power64 [OF assms(1)])
  then show ?thesis by blast
qed

lemma calculate_pattern_combinations_shape:
  assumes "cs \<noteq> 0" "calculate_pattern_combinations segments cs L = Some N"
  shows "N = 0 \<or> (\<exists>W. power64 (unat cs) W = Some N)"
  using assms(2) unfolding calculate_pattern_combinations_eq [OF assms(1)]
  by (auto split: if_splits)

lemma index_count_leaves_room:
  assumes cs: "charset \<noteq> []" "length charset + 2 ^ 32 \<le> 2 ^ 64"
    and src: "calculate_combinations (word_of_nat (length charset)) len = Some N
       \<or> calculate_pattern_combinations segments (word_of_nat (length charset)) L = Some N
       \<or> N \<le> MAX_REASONABLE_INDICES_RAM"
  shows "unat N + unat (T :: uint32) \<le> 2 ^ 64"
proof -
  let ?C = "length charset"
  let ?cs = "word_of_nat ?C :: uint64"
  have lt: "?C < 2 ^ 64" using cs(2) by simp
  then have u: "unat ?cs = ?C" by (rule unat_charsetSize)
  with cs(1) have cs0: "?cs \<noteq> 0" by (metis length_0_conv unat_0)
  have zero: "unat N + 2 ^ 32 \<le> (2::nat) ^ 64" if "N = 0" unfolding that by simp
  have pw: "unat N + 2 ^ 32 \<le> (2::nat) ^ 64" if "power64 ?C W = Some N" for W
    using cs(2) that by (rule power64_leaves_room)
  have big: "unat N + 2 ^ 32 \<le> (2::nat) ^ 64" if "N \<le> MAX_REASONABLE_INDICES_RAM"
    using that unfolding word_le_nat_alt MAX_REASONABLE_INDICES_RAM_value by simp
  from src consider "N = 0" | W where "power64 ?C W = Some N" | "N \<le> MAX_REASONABLE_INDICES_RAM"
    using calculate_combinations_shape [OF cs0, of len N]
      calculate_pattern_combinations_shape [OF cs0, of segments L N]
    unfolding u by blast
  then have "unat N + 2 ^ 32 \<le> (2::nat) ^ 64"
    using zero pw big by cases blast+
  moreover have "unat T < 2 ^ 32" using unsigned_less [of T, where 'a = nat] by simp
  ultimately show ?thesis by simp
qed

subsection \<open>The stop check in the spawn loop\<close>

text \<open>
  The stop check made before each spawn can only end the loop early: what is handed out
  when a stop flag is seen is an initial part of what is handed out when none is.
\<close>

lemma spawn_loop_prefix:
  "\<exists>n. spawn_loop check_stop_flag t numThreads ipt N
         = take n (spawn_loop never_stop t numThreads ipt N)"
proof (induction check_stop_flag t numThreads ipt N rule: spawn_loop.induct)
  case (1 csf t T ipt N)
  let ?st = "ucast t * ipt"
  let ?en = "min (?st + ipt) N"
  consider (stopped) "\<not> t < T \<or> csf t \<or> ?st \<ge> ?en"
    | (spawned) "t < T" "\<not> csf t" "\<not> ?st \<ge> ?en"
    by blast
  then show ?case
  proof cases
    case stopped
    then have "spawn_loop csf t T ipt N = []"
      by (subst spawn_loop.simps) (auto simp: Let_def)
    then have "spawn_loop csf t T ipt N = take 0 (spawn_loop never_stop t T ipt N)" by simp
    then show ?thesis ..
  next
    case spawned
    from "1.IH" [OF spawned(1) spawned(2) refl refl spawned(3)]
    obtain n where n: "spawn_loop csf (t + 1) T ipt N = take n (spawn_loop never_stop (t + 1) T ipt N)"
      by blast
    have a: "spawn_loop csf t T ipt N = (?st, ?en) # spawn_loop csf (t + 1) T ipt N"
      using spawned by (subst spawn_loop.simps) (simp add: Let_def)
    have b: "spawn_loop never_stop t T ipt N = (?st, ?en) # spawn_loop never_stop (t + 1) T ipt N"
      using spawned by (subst spawn_loop.simps) (simp add: Let_def never_stop_def)
    have "spawn_loop csf t T ipt N = take (Suc n) (spawn_loop never_stop t T ipt N)"
      unfolding a b n by simp
    then show ?thesis ..
  qed
qed

lemma dispatch_chunks_prefix:
  "\<exists>n. dispatch_chunks check_stop_flag N T = take n (dispatch_chunks never_stop N T)"
  unfolding dispatch_chunks_def by (rule spawn_loop_prefix)

subsection \<open>The partition\<close>

text \<open>
  C9. For every index count \<open>N \<ge> 1\<close> that the controller computes (from a non-empty
  charset, a \<^verbatim>\<open>std::string\<close>, whose length therefore leaves room for a 32-bit number
  below \<open>2^64\<close>) and every thread count \<open>T \<ge> 1\<close>, the chunking of the spawn loop has at
  most \<open>T\<close> chunks, all non-empty; chunk \<open>k\<close> is
  \<open>[k * ceil(N/T), min((k + 1) * ceil(N/T), N))\<close>; the chunks are pairwise disjoint and
  their union is exactly \<open>[0, N)\<close>. So every other thread count \<open>T' \<ge> 1\<close> dispatches
  the same set of indices. The chunking is \<open>dispatch_chunks never_stop\<close>, the chunks of
  a spawn loop that runs to its end; a stop flag seen before a spawn ends the loop
  there, and what has been handed out is an initial part of the chunking.
\<close>

theorem chunks_partition:
  assumes "charset \<noteq> []" and "length charset + 2 ^ 32 \<le> 2 ^ 64"
    and "calculate_combinations (word_of_nat (length charset)) len = Some N
       \<or> calculate_pattern_combinations segments (word_of_nat (length charset)) L = Some N
       \<or> N \<le> MAX_REASONABLE_INDICES_RAM"
    and "1 \<le> unat N" and "1 \<le> unat T"
  shows "length (dispatch_chunks never_stop N T) \<le> unat T
    \<and> (\<forall>k < length (dispatch_chunks never_stop N T).
          unat (fst (dispatch_chunks never_stop N T ! k))
            = k * ((unat N + unat T - 1) div unat T)
        \<and> unat (snd (dispatch_chunks never_stop N T ! k))
            = min ((k + 1) * ((unat N + unat T - 1) div unat T)) (unat N)
        \<and> fst (dispatch_chunks never_stop N T ! k) < snd (dispatch_chunks never_stop N T ! k))
    \<and> (\<forall>k < length (dispatch_chunks never_stop N T).
        \<forall>k' < length (dispatch_chunks never_stop N T). k \<noteq> k' \<longrightarrow>
          {unat (fst (dispatch_chunks never_stop N T ! k))
             ..<unat (snd (dispatch_chunks never_stop N T ! k))}
          \<inter> {unat (fst (dispatch_chunks never_stop N T ! k'))
             ..<unat (snd (dispatch_chunks never_stop N T ! k'))} = {})
    \<and> chunk_indices (dispatch_chunks never_stop N T) = {0..<unat N}
    \<and> (1 \<le> unat T' \<longrightarrow>
          chunk_indices (dispatch_chunks never_stop N T')
            = chunk_indices (dispatch_chunks never_stop N T))
    \<and> (\<exists>n. dispatch_chunks check_stop_flag N T = take n (dispatch_chunks never_stop N T))"
proof -
  let ?I = "(unat N + unat T - 1) div unat T"
  let ?c = "dispatch_chunks never_stop N T"
  have room: "unat N + unat U \<le> 2 ^ 64" for U :: uint32
    using assms(1,2,3) by (rule index_count_leaves_room)
  note p = dispatch_chunks_props [OF assms(4,5) room]
  have disj: "{unat (fst (?c ! k))..<unat (snd (?c ! k))}
                \<inter> {unat (fst (?c ! k'))..<unat (snd (?c ! k'))} = {}"
    if "k < length ?c" "k' < length ?c" "k < k'" for k k'
  proof -
    have "unat (snd (?c ! k)) \<le> (k + 1) * ?I" using p(2) [OF that(1)] by simp
    also have "\<dots> \<le> k' * ?I" using that(3) by (intro mult_le_mono1) simp
    also have "\<dots> = unat (fst (?c ! k'))" using p(2) [OF that(2)] by simp
    finally show ?thesis by auto
  qed
  have disj': "{unat (fst (?c ! k))..<unat (snd (?c ! k))}
                \<inter> {unat (fst (?c ! k'))..<unat (snd (?c ! k'))} = {}"
    if "k < length ?c" "k' < length ?c" "k \<noteq> k'" for k k'
  proof (cases "k < k'")
    case True
    with that show ?thesis by (intro disj)
  next
    case False
    with that have "k' < k" by simp
    with that have "{unat (fst (?c ! k'))..<unat (snd (?c ! k'))}
                \<inter> {unat (fst (?c ! k))..<unat (snd (?c ! k))} = {}" by (intro disj)
    then show ?thesis by blast
  qed
  have other: "chunk_indices (dispatch_chunks never_stop N T') = chunk_indices ?c"
    if "1 \<le> unat T'"
    using dispatch_chunks_props(3) [OF assms(4) that room] p(3) by simp
  have cut: "\<exists>n. dispatch_chunks check_stop_flag N T = take n ?c"
    by (rule dispatch_chunks_prefix)
  show ?thesis
    using p(1) p(2) p(3) disj' other cut by (intro conjI allI impI) blast+
qed

lemma count_ab_2: "calculate_combinations (word_of_nat (length ''ab'')) 2 = Some 4"
  by (simp add: calculate_combinations_def combinations_loop_power64 power64_def)

theorem chunks_partition_witness:
  "length (dispatch_chunks never_stop 4 3) \<le> unat (3 :: uint32)
    \<and> chunk_indices (dispatch_chunks never_stop 4 3) = {0..<unat (4 :: uint64)}
    \<and> chunk_indices (dispatch_chunks never_stop 4 5) = chunk_indices (dispatch_chunks never_stop 4 3)
    \<and> (\<exists>n. dispatch_chunks (\<lambda>t. t = 1) 4 3 = take n (dispatch_chunks never_stop 4 3))"
proof -
  have a: "''ab'' \<noteq> []" "length ''ab'' + 2 ^ 32 \<le> 2 ^ 64" by simp_all
  have b: "calculate_combinations (word_of_nat (length ''ab'')) 2 = Some 4
       \<or> calculate_pattern_combinations [] (word_of_nat (length ''ab'')) 0 = Some 4
       \<or> 4 \<le> MAX_REASONABLE_INDICES_RAM" using count_ab_2 by blast
  have c: "1 \<le> unat (4 :: uint64)" "1 \<le> unat (3 :: uint32)" by simp_all
  have d: "1 \<le> unat (5 :: uint32)" by simp
  from chunks_partition [OF a b c, where T' = 5 and check_stop_flag = "\<lambda>t. t = 1"] d
  show ?thesis by blast
qed

subsection \<open>Examples of the chunking\<close>

lemma four_items_three_threads:
  "dispatch_chunks never_stop 4 3 = [(0, 2), (2, 4)]"
  by (simp add: dispatch_chunks_def itemsPerThread_of_def spawn_loop.simps never_stop_def
        word_le_nat_alt word_less_nat_alt)

lemma stop_before_second_spawn:
  "dispatch_chunks (\<lambda>t. t = 1) 4 3 = [(0, 2)]"
  by (simp add: dispatch_chunks_def itemsPerThread_of_def spawn_loop.simps
        word_le_nat_alt word_less_nat_alt)

text \<open>
  \<open>itemsPerThread\<close> is computed in 64 bits, so on a count that is no count of the
  controller, within a 32-bit number of \<open>2^64\<close>, the sum \<open>N + T - 1\<close> would wrap.
\<close>

lemma all_ones_two_threads:
  "dispatch_chunks never_stop 0xFFFFFFFFFFFFFFFF 2 = [(0, 1), (1, 2)]"
  by (simp add: dispatch_chunks_def itemsPerThread_of_def spawn_loop.simps never_stop_def
        word_le_nat_alt word_less_nat_alt)

section \<open>Properties of the final save and of the workers\<close>

lemma final_save_events:
  "Serialize p \<in> set (fst (final_save env can_open duration s)) \<longleftrightarrow>
     p = skipListFilePath env \<and> p \<noteq> []
     \<and> (\<exists>f. filter_ptr s = Some f \<and> isValid f) \<and> filterMutex env
     \<and> (foundFlag s \<or> stop_requested s)"
  by (cases "filter_ptr s") (auto simp: final_save_def Let_def)

text \<open>
  C6. When \<open>brute_force_worker_combined\<close> reaches its finalization (no exception), it
  calls \<open>serialize\<close> with a path exactly when that path is the configured skip-file
  path (the global, non-empty), and (i) the filter pointer is set and the mutex pointer is
  set, (ii) the filter is valid, (iii) the found flag or \<open>stop_requested\<close> is set. So on a
  clean exhaustion, with neither found nor stopped, the finalization does not write the
  filter file.
\<close>

theorem final_save_iff:
  "(Serialize p \<in> set (fst (final_save env can_open duration s)) \<longleftrightarrow>
      p = skipListFilePath env \<and> p \<noteq> []
      \<and> (\<exists>f. filter_ptr s = Some f \<and> isValid f) \<and> filterMutex env
      \<and> (foundFlag s \<or> stop_requested s))
   \<and> (\<not> foundFlag s \<and> \<not> stop_requested s \<longrightarrow>
        (\<forall>path. Serialize path \<notin> set (fst (final_save env can_open duration s))))"
  using final_save_events by blast

lemma minimal_filter_valid: "isValid minimal_filter"
  by (simp add: minimal_filter_def isValid_def)

theorem final_save_iff_witness:
  "Serialize ''skip.bin'' \<in> set (fst (final_save stopping_env True ''1.5'' found_state))
   \<and> (\<forall>path. Serialize path \<notin> set (fst (final_save stopping_env True ''1.5'' exhausted_state)))"
proof -
  have a: "\<not> foundFlag exhausted_state \<and> \<not> stop_requested exhausted_state"
    by (simp add: exhausted_state_def)
  have b: "''skip.bin'' = skipListFilePath stopping_env \<and> ''skip.bin'' \<noteq> []
      \<and> (\<exists>f. filter_ptr found_state = Some f \<and> isValid f) \<and> filterMutex stopping_env
      \<and> (foundFlag found_state \<or> stop_requested found_state)"
    by (simp add: stopping_env_def found_state_def minimal_filter_valid)
  from final_save_iff [of "''skip.bin''" stopping_env True "''1.5''" found_state] b
  have 1: "Serialize ''skip.bin'' \<in> set (fst (final_save stopping_env True ''1.5'' found_state))"
    by blast
  from final_save_iff [of "''skip.bin''" stopping_env True "''1.5''" exhausted_state] a
  have 2: "\<forall>path. Serialize path \<notin> set (fst (final_save stopping_env True ''1.5'' exhausted_state))"
    by blast
  from 1 2 show ?thesis by blast
qed

lemma index_range_0_1: "index_range 0 1 = [0]"
  by (simp add: index_range_def)

text \<open>
  C8 does not hold of the two pattern workers. With the stop flag file present, a filter
  and its mutex, \<open>pattern_index_worker\<close> and \<open>shuffled_pattern_worker\<close> call
  \<open>serialize\<close> on the skip-file path at their first index, before they set
  \<open>stop_requested\<close>; \<open>sequential_password_worker\<close> in the same situation only prints
  its status line and sets the flag.
\<close>

theorem pattern_workers_serialize_on_stop:
  "events (pattern_index_worker stopping_env 0 1 [''?''] ''a'' 1 ''skip.bin.stop'' fresh_state)
     = [Serialize ''skip.bin'', Output ''INFO: Stop flag detected by pattern worker...'']
   \<and> events (shuffled_pattern_worker stopping_env 0 1 [0] [''?''] ''a'' 1 1 [1 \<mapsto> 1]
               ''skip.bin.stop'' fresh_state)
     = [Serialize ''skip.bin'', Output ''INFO: Stop flag detected by shuffled pattern worker...'']
   \<and> events (sequential_password_worker stopping_env 1 0 1 ''a'' ''skip.bin.stop'' fresh_state)
     = [Output ''INFO: Stop flag detected by sequential worker 7.'']"
  by (simp add: pattern_index_worker_def shuffled_pattern_worker_def
        sequential_password_worker_def index_range_0_1 stopping_env_def fresh_state_def
        flag_present_def emit_def to_string.simps)

text \<open>
  The two index workers never call \<open>serialize\<close>: every serialize event in the state they
  return was there before.
\<close>

lemma emit_events: "events (emit e s) = events s @ [e]"
  by (simp add: emit_def)

lemma set_found_events: "events (set_found pwd s) = events s"
  by (simp add: set_found_def)

lemma insert_rejected_events: "events (insert_rejected env pwd s) = events s"
  by (simp add: insert_rejected_def split: option.splits)

lemma sequential_loop_never_serializes:
  "Serialize p \<in> set (events (sequential_password_worker_loop env len charset cs path idxs s))
     \<Longrightarrow> Serialize p \<in> set (events s)"
proof (induction idxs arbitrary: s)
  case Nil
  then show ?case by simp
next
  case (Cons idx rest)
  let ?pwd = "fill_loop 0 len idx charset cs (replicate (nat len) (charset ! 0))"
  let ?r = "sequential_password_worker_loop env len charset cs path (idx # rest) s"
  consider (finished) "foundFlag s \<or> stop_requested s"
    | (stopped) "\<not> (foundFlag s \<or> stop_requested s)"
        "idx mod 1000 = 0 \<and> path \<noteq> [] \<and> stop_flag_exists env path"
    | (skipped) "\<not> (foundFlag s \<or> stop_requested s)"
        "\<not> (idx mod 1000 = 0 \<and> path \<noteq> [] \<and> stop_flag_exists env path)" "skip_test s ?pwd"
    | (hit) "\<not> (foundFlag s \<or> stop_requested s)"
        "\<not> (idx mod 1000 = 0 \<and> path \<noteq> [] \<and> stop_flag_exists env path)" "\<not> skip_test s ?pwd"
        "tryPassword env ?pwd"
    | (miss) "\<not> (foundFlag s \<or> stop_requested s)"
        "\<not> (idx mod 1000 = 0 \<and> path \<noteq> [] \<and> stop_flag_exists env path)" "\<not> skip_test s ?pwd"
        "\<not> tryPassword env ?pwd"
    by blast
  then show ?case
  proof cases
    case finished
    then have "?r = s" by simp
    with Cons.prems show ?thesis by simp
  next
    case stopped
    then have "events ?r = events s @ [Output (''INFO: Stop flag detected by sequential worker ''
                              @ to_string (thread_id_hash env) @ ''.'')]"
      by (simp add: Let_def emit_events)
    with Cons.prems show ?thesis by simp
  next
    case skipped
    then have "?r = sequential_password_worker_loop env len charset cs path rest s"
      by (auto simp: Let_def)
    with Cons.prems show ?thesis by (auto dest: Cons.IH)
  next
    case hit
    then have "?r = set_found ?pwd s" by (auto simp: Let_def)
    with Cons.prems show ?thesis by (simp add: set_found_events)
  next
    case miss
    then have "?r = sequential_password_worker_loop env len charset cs path rest
                      (insert_rejected env ?pwd s)"
      by (auto simp: Let_def)
    with Cons.prems have "Serialize p \<in> set (events (insert_rejected env ?pwd s))"
      by (auto dest: Cons.IH)
    then show ?thesis by (simp add: insert_rejected_events)
  qed
qed

lemma shuffled_index_loop_never_serializes:
  "Serialize p \<in> set (events (shuffled_index_worker_loop env shuffled off charset maxlen path idxs s))
     \<Longrightarrow> Serialize p \<in> set (events s)"
proof (induction idxs arbitrary: s)
  case Nil
  then show ?case by simp
next
  case (Cons idx rest)
  let ?g = "shuffled ! unat idx + off"
  let ?r = "shuffled_index_worker_loop env shuffled off charset maxlen path (idx # rest) s"
  let ?go = "\<lambda>s'. shuffled_index_worker_loop env shuffled off charset maxlen path rest s'"
  consider (finished) "foundFlag s \<or> stop_requested s"
    | (stopped) "\<not> (foundFlag s \<or> stop_requested s)"
        "idx mod 1000 = 0 \<and> path \<noteq> [] \<and> stop_flag_exists env path"
    | (failed) "\<not> (foundFlag s \<or> stop_requested s)"
        "\<not> (idx mod 1000 = 0 \<and> path \<noteq> [] \<and> stop_flag_exists env path)"
        "getPasswordByIndex ?g charset maxlen = None"
    | (skipped) pwd where "\<not> (foundFlag s \<or> stop_requested s)"
        "\<not> (idx mod 1000 = 0 \<and> path \<noteq> [] \<and> stop_flag_exists env path)"
        "getPasswordByIndex ?g charset maxlen = Some pwd" "skip_test s pwd"
    | (hit) pwd where "\<not> (foundFlag s \<or> stop_requested s)"
        "\<not> (idx mod 1000 = 0 \<and> path \<noteq> [] \<and> stop_flag_exists env path)"
        "getPasswordByIndex ?g charset maxlen = Some pwd" "\<not> skip_test s pwd" "tryPassword env pwd"
    | (miss) pwd where "\<not> (foundFlag s \<or> stop_requested s)"
        "\<not> (idx mod 1000 = 0 \<and> path \<noteq> [] \<and> stop_flag_exists env path)"
        "getPasswordByIndex ?g charset maxlen = Some pwd" "\<not> skip_test s pwd"
        "\<not> tryPassword env pwd"
    by (cases "getPasswordByIndex ?g charset maxlen") blast+
  then show ?case
  proof cases
    case finished
    then have "?r = s" by simp
    with Cons.prems show ?thesis by simp
  next
    case stopped
    then have "events ?r = events s @ [Output (''INFO: Stop flag detected by shuffled_index_worker ''
                              @ to_string (thread_id_hash env) @ ''.'')]"
      by (simp add: Let_def emit_events)
    with Cons.prems show ?thesis by simp
  next
    case failed
    then have "?r = ?go (emit (Output (''WARN: getPasswordByIndex failed for global index ''
                                     @ to_string (unat ?g))) s)"
      by (auto simp: Let_def)
    with Cons.prems have "Serialize p \<in> set (events (emit (Output
        (''WARN: getPasswordByIndex failed for global index '' @ to_string (unat ?g))) s))"
      by (auto dest: Cons.IH)
    then show ?thesis by (simp add: emit_events)
  next
    case skipped
    then have "?r = ?go s" by (auto simp: Let_def)
    with Cons.prems show ?thesis by (auto dest: Cons.IH)
  next
    case hit
    then have "?r = set_found pwd s" by (auto simp: Let_def)
    with Cons.prems show ?thesis by (simp add: set_found_events)
  next
    case miss
    then have "?r = ?go (insert_rejected env pwd s)" by (auto simp: Let_def)
    with Cons.prems have "Serialize p \<in> set (events (insert_rejected env pwd s))"
      by (auto dest: Cons.IH)
    then show ?thesis by (simp add: insert_rejected_events)
  qed
qed

lemma index_workers_never_serialize:
  "Serialize p \<in> set (events (sequential_password_worker env len a b charset path s))
     \<Longrightarrow> Serialize p \<in> set (events s)"
  "Serialize p \<in> set (events (shuffled_index_worker env a b shuffled off charset maxlen path s))
     \<Longrightarrow> Serialize p \<in> set (events s)"
  by (auto simp: sequential_password_worker_def shuffled_index_worker_def Let_def
           split: if_splits
           dest: sequential_loop_never_serializes shuffled_index_loop_never_serializes)

end
